theory Spec2Isabelle
  imports Main "HOL-Library.Word"
begin

unbundle bit_operations_syntax

section \<open>The CHIP-8 interpreter core (src/cpu.cpp)\<close>

text \<open>
  The class \<open>cpu\<close> of \<open>cpu.cpp\<close> is embedded as a record of its members and each member
  function as a function on that record.  A C++ array \<open>T a[n]\<close> is a function from the
  index to the element together with its declared size \<open>n\<close>; C++ checks no index, so an
  access at an index outside the array is undefined behaviour.  The embedding makes every
  such access a branch of its own: the step ends with \<open>Undefined a i\<close>, naming the array
  and the index, and says nothing about what happens afterwards.
\<close>

subsection \<open>State\<close>

type_synonym u8 = "8 word"
type_synonym u16 = "16 word"

text \<open>
  Modelled from the spec: the class declaration (\<open>cpu.h\<close>) is not among the sources.  The
  member names are those \<open>cpu.cpp\<close> uses; the widths and array sizes are those of the
  spec's data model (4096 bytes of memory, sixteen 8-bit registers, 16-bit \<open>I\<close> and \<open>pc\<close>,
  a stack of sixteen 16-bit return addresses, a 64x32 framebuffer of one byte per pixel,
  two 16-entry key matrices, 8-bit timers).  The stack pointer is taken as 16 bits wide.
\<close>

record cpu =
  opcode :: u16
  memory :: "nat \<Rightarrow> u8"
  V :: "nat \<Rightarrow> u8"
  I :: u16
  pc :: u16
  stack :: "nat \<Rightarrow> u16"
  sp :: u16
  gfx :: "nat \<Rightarrow> u8"
  key :: "nat \<Rightarrow> u8"
  prevKeys :: "nat \<Rightarrow> u8"
  delay_timer :: u8
  sound_timer :: u8
  breakIPF :: bool
  draw :: bool
  running :: bool

text \<open>The declared sizes of \<open>memory\<close>, \<open>stack\<close>, \<open>key\<close> (and \<open>prevKeys\<close>) and \<open>gfx\<close>, from the same source.\<close>

definition MEMORY_SIZE :: nat where "MEMORY_SIZE = 4096"
definition STACK_SIZE :: nat where "STACK_SIZE = 16"
definition KEY_SIZE :: nat where "KEY_SIZE = 16"
definition GFX_SIZE :: nat where "GFX_SIZE = 64 * 32"

text \<open>
  A call of a member function either returns, with the new state, or accesses the named
  array at the given index outside its bounds.
\<close>

datatype array_id = MemoryArr | StackArr | KeyArr

datatype outcome = Returned cpu | Undefined array_id nat

subsection \<open>The opcode fields (the macros of lines 10 to 14)\<close>

definition OP_X :: "u16 \<Rightarrow> nat" where
  "OP_X opc = unat (drop_bit 8 (opc AND 0x0F00))"

definition OP_Y :: "u16 \<Rightarrow> nat" where
  "OP_Y opc = unat (drop_bit 4 (opc AND 0x00F0))"

definition OP_N :: "u16 \<Rightarrow> nat" where
  "OP_N opc = unat (opc AND 0x000F)"

definition OP_NN :: "u16 \<Rightarrow> u8" where
  "OP_NN opc = ucast (opc AND 0x00FF)"

definition OP_NNN :: "u16 \<Rightarrow> u16" where
  "OP_NNN opc = opc AND 0x0FFF"

text \<open>
  \<open>OP_X\<close>, \<open>OP_Y\<close> and \<open>OP_N\<close> are used as array indices and loop bounds, \<open>OP_NN\<close> is
  compared with a register or stored in one (its value is below 256), \<open>OP_NNN\<close> is stored
  in \<open>pc\<close> or \<open>I\<close>.
\<close>

subsection \<open>The font table and \<open>cpu::init\<close> (lines 16 to 53)\<close>

definition chip8_fontset :: "u8 list" where
  "chip8_fontset =
    [0xF0, 0x90, 0x90, 0x90, 0xF0,
     0x20, 0x60, 0x20, 0x20, 0x70,
     0xF0, 0x10, 0xF0, 0x80, 0xF0,
     0xF0, 0x10, 0xF0, 0x10, 0xF0,
     0x90, 0x90, 0xF0, 0x10, 0x10,
     0xF0, 0x80, 0xF0, 0x10, 0xF0,
     0xF0, 0x80, 0xF0, 0x90, 0xF0,
     0xF0, 0x10, 0x20, 0x40, 0x40,
     0xF0, 0x90, 0xF0, 0x90, 0xF0,
     0xF0, 0x90, 0xF0, 0x10, 0xF0,
     0xF0, 0x90, 0xF0, 0x90, 0x90,
     0xE0, 0x90, 0xE0, 0x90, 0xE0,
     0xF0, 0x80, 0x80, 0x80, 0xF0,
     0xE0, 0x90, 0x90, 0x90, 0xE0,
     0xF0, 0x80, 0xF0, 0x80, 0xF0,
     0xF0, 0x80, 0xF0, 0x80, 0x80]"

text \<open>\<open>memset (a, 0, sizeof a)\<close> on an array of \<open>n\<close> elements.\<close>

definition memset0 :: "(nat \<Rightarrow> 'a::zero) \<Rightarrow> nat \<Rightarrow> (nat \<Rightarrow> 'a)" where
  "memset0 a n = (\<lambda>i. if i < n then 0 else a i)"

text \<open>The loop \<open>for (int i = 0; i < 80; i++) memory[i] = chip8_fontset[i]\<close>.\<close>

fun load_font :: "nat list \<Rightarrow> (nat \<Rightarrow> u8) \<Rightarrow> (nat \<Rightarrow> u8)" where
  "load_font [] m = m"
| "load_font (i # rest) m = load_font rest (m(i := chip8_fontset ! i))"

text \<open>
  \<open>init\<close> assigns \<open>pc\<close>, \<open>opcode\<close>, \<open>I\<close>, \<open>sp\<close>, the five arrays and the three flags, and
  nothing else: the registers \<open>V\<close> and the two timers keep the values they had.
\<close>

definition init :: "cpu \<Rightarrow> cpu" where
  "init s =
    (let s1 = s\<lparr>pc := 0x200, opcode := 0x00, I := 0, sp := 0,
                 memory := memset0 (memory s) MEMORY_SIZE,
                 stack := memset0 (stack s) STACK_SIZE,
                 gfx := memset0 (gfx s) GFX_SIZE,
                 key := memset0 (key s) KEY_SIZE,
                 prevKeys := memset0 (prevKeys s) KEY_SIZE\<rparr>;
         s2 = s1\<lparr>memory := load_font [0..<80] (memory s1)\<rparr>
     in s2\<lparr>breakIPF := False, draw := False, running := True\<rparr>)"

subsection \<open>\<open>cpu::executeCycle\<close> (lines 86 to 404)\<close>

text \<open>The fetch \<open>memory[pc] << 8 | memory[pc + 1]\<close>, stored in the 16-bit \<open>opcode\<close>.\<close>

definition fetch :: "cpu \<Rightarrow> u16" where
  "fetch s = push_bit 8 (ucast (memory s (unat (pc s)))) OR ucast (memory s (unat (pc s) + 1))"

text \<open>Case \<open>0x0000\<close>: 00E0 and 00EE, chosen by the low nibble alone.\<close>

definition exec_0 :: "cpu \<Rightarrow> outcome" where
  "exec_0 s =
    (if opcode s AND 0x000F = 0x0 then
       Returned (s\<lparr>gfx := memset0 (gfx s) (64 * 32), breakIPF := True\<rparr>)
     else if opcode s AND 0x000F = 0xE then
       (let sp' = sp s - 1 in
        if unat sp' < STACK_SIZE
        then Returned (s\<lparr>sp := sp', pc := stack s (unat sp')\<rparr>)
        else Undefined StackArr (unat sp'))
     else Returned s)"

text \<open>Case \<open>0x2000\<close>: 2NNN.\<close>

definition exec_2 :: "cpu \<Rightarrow> outcome" where
  "exec_2 s =
    (if unat (sp s) < STACK_SIZE
     then Returned (s\<lparr>stack := (stack s)(unat (sp s) := pc s), sp := sp s + 1,
                       pc := OP_NNN (opcode s)\<rparr>)
     else Undefined StackArr (unat (sp s)))"

text \<open>Case \<open>0x8000\<close>: the register operations, chosen by the low nibble.\<close>

definition exec_8 :: "cpu \<Rightarrow> cpu" where
  "exec_8 s =
    (let x = OP_X (opcode s); y = OP_Y (opcode s); n = opcode s AND 0x000F in
     if n = 0x0 then s\<lparr>V := (V s)(x := V s y)\<rparr>
     else if n = 0x1 then s\<lparr>V := ((V s)(x := V s x OR V s y))(0xF := 0)\<rparr>
     else if n = 0x2 then s\<lparr>V := ((V s)(x := V s x AND V s y))(0xF := 0)\<rparr>
     else if n = 0x3 then s\<lparr>V := ((V s)(x := V s x XOR V s y))(0xF := 0)\<rparr>
     else if n = 0x4 then
       (let sum = unat (V s x) + unat (V s y);
            V1 = (V s)(x := V s x + V s y)
        in s\<lparr>V := V1(0xF := (if sum > 255 then 1 else 0))\<rparr>)
     else if n = 0x5 then
       (let temp = (if V s x \<ge> V s y then 1 else 0);
            V1 = (V s)(x := V s x - V s y)
        in s\<lparr>V := V1(0xF := temp)\<rparr>)
     else if n = 0x6 then
       (let temp = V s x AND 1;
            V1 = (V s)(x := V s y);
            V2 = V1(x := drop_bit 1 (V1 x))
        in s\<lparr>V := V2(0xF := temp)\<rparr>)
     else if n = 0x7 then
       (let temp = (if V s x \<le> V s y then 1 else 0);
            V1 = (V s)(x := V s y - V s x)
        in s\<lparr>V := V1(0xF := temp)\<rparr>)
     else if n = 0xE then
       (let V1 = (V s)(x := V s y);
            temp = drop_bit 7 (V1 x AND 0x80) AND 1;
            V2 = V1(x := push_bit 1 (V1 x))
        in s\<lparr>V := V2(0xF := temp)\<rparr>)
     else s)"

text \<open>
  Case \<open>0xD000\<close>: DXYN.  \<open>draw_bit\<close> is the body of the inner loop, \<open>draw_rows\<close> the
  outer loop over \<open>height\<close>.  \<open>x\<close>, \<open>y\<close>, \<open>n\<close> are below 64, 32 and 16, so the sums
  and products of the source do not overflow; they are natural numbers here.  \<open>bit_i\<close>
  is the source's loop variable \<open>bit\<close>.
\<close>

definition draw_bit :: "nat \<Rightarrow> nat \<Rightarrow> nat \<Rightarrow> u16 \<Rightarrow> nat \<Rightarrow> cpu \<Rightarrow> cpu" where
  "draw_bit x y height pixel bit_i s =
    (if x + bit_i > 64 then s
     else if pixel AND drop_bit bit_i 0x80 \<noteq> 0 then
       (let drawX = (x + bit_i) mod 64;
            drawY = (y + height) mod 32;
            index = drawX + drawY * 64;
            s1 = (if gfx s index = 1 then s\<lparr>V := (V s)(0xF := 1)\<rparr> else s)
        in s1\<lparr>gfx := (gfx s1)(index := gfx s1 index XOR 1)\<rparr>)
     else s)"

fun draw_bits :: "nat \<Rightarrow> nat \<Rightarrow> nat \<Rightarrow> u16 \<Rightarrow> nat list \<Rightarrow> cpu \<Rightarrow> cpu" where
  "draw_bits x y height pixel [] s = s"
| "draw_bits x y height pixel (bit_i # rest) s =
     draw_bits x y height pixel rest (draw_bit x y height pixel bit_i s)"

fun draw_rows :: "nat \<Rightarrow> nat \<Rightarrow> nat list \<Rightarrow> cpu \<Rightarrow> outcome" where
  "draw_rows x y [] s = Returned s"
| "draw_rows x y (height # rest) s =
     (if y + height > 32 then draw_rows x y rest s
      else if unat (I s) + height < MEMORY_SIZE then
        draw_rows x y rest
          (draw_bits x y height (ucast (memory s (unat (I s) + height))) [0..<8] s)
      else Undefined MemoryArr (unat (I s) + height))"

definition exec_D :: "cpu \<Rightarrow> outcome" where
  "exec_D s =
    (let x = unat (V s (OP_X (opcode s))) mod 64;
         y = unat (V s (OP_Y (opcode s))) mod 32;
         n = OP_N (opcode s)
     in case draw_rows x y [0..<n] (s\<lparr>V := (V s)(0xF := 0)\<rparr>) of
          Returned s1 \<Rightarrow> Returned (s1\<lparr>breakIPF := True, draw := True\<rparr>)
        | Undefined a i \<Rightarrow> Undefined a i)"

text \<open>Case \<open>0xE000\<close>: EX9E and EXA1 index \<open>key\<close> with the whole byte \<open>V[X]\<close>.\<close>

definition exec_E :: "cpu \<Rightarrow> outcome" where
  "exec_E s =
    (let k = unat (V s (OP_X (opcode s))) in
     if opcode s AND 0x00FF = 0x9E then
       (if k < KEY_SIZE
        then Returned (if key s k \<noteq> 0 then s\<lparr>pc := pc s + 2\<rparr> else s)
        else Undefined KeyArr k)
     else if opcode s AND 0x00FF = 0xA1 then
       (if k < KEY_SIZE
        then Returned (if key s k = 0 then s\<lparr>pc := pc s + 2\<rparr> else s)
        else Undefined KeyArr k)
     else Returned s)"

text \<open>
  Case \<open>0xF000\<close>.  FX0A scans the keys from 0 to 15 and stops at the first one that the
  snapshot \<open>prevKeys\<close> has as 1 and \<open>key\<close> has as 0.
\<close>

fun key_scan :: "nat list \<Rightarrow> cpu \<Rightarrow> nat option" where
  "key_scan [] s = None"
| "key_scan (i # rest) s =
     (if prevKeys s i = 1 \<and> key s i = 0 then Some i else key_scan rest s)"

definition exec_F0A :: "cpu \<Rightarrow> cpu" where
  "exec_F0A s =
    (case key_scan [0..<16] s of
       Some i \<Rightarrow> s\<lparr>V := (V s)(OP_X (opcode s) := of_nat i), breakIPF := True\<rparr>
     | None \<Rightarrow> s\<lparr>pc := pc s - 2\<rparr>)"

definition exec_F33 :: "cpu \<Rightarrow> outcome" where
  "exec_F33 s =
    (let number = unat (V s (OP_X (opcode s)));
         hundreds = number div 100;
         tens = (number div 10) mod 10;
         ones = number mod 10;
         a = unat (I s)
     in if \<not> a < MEMORY_SIZE then Undefined MemoryArr a
        else if \<not> a + 1 < MEMORY_SIZE then Undefined MemoryArr (a + 1)
        else if \<not> a + 2 < MEMORY_SIZE then Undefined MemoryArr (a + 2)
        else Returned (s\<lparr>memory := (memory s)(a := of_nat hundreds, a + 1 := of_nat tens,
                                                a + 2 := of_nat ones)\<rparr>))"

text \<open>FX55 and FX65: the loops \<open>for (int i = 0; i <= OP_X; i++)\<close>, \<open>I\<close> incremented in each turn.\<close>

fun store_loop :: "nat list \<Rightarrow> cpu \<Rightarrow> outcome" where
  "store_loop [] s = Returned s"
| "store_loop (i # rest) s =
     (if unat (I s) < MEMORY_SIZE
      then store_loop rest (s\<lparr>memory := (memory s)(unat (I s) := V s i), I := I s + 1\<rparr>)
      else Undefined MemoryArr (unat (I s)))"

fun load_loop :: "nat list \<Rightarrow> cpu \<Rightarrow> outcome" where
  "load_loop [] s = Returned s"
| "load_loop (i # rest) s =
     (if unat (I s) < MEMORY_SIZE
      then load_loop rest (s\<lparr>V := (V s)(i := memory s (unat (I s))), I := I s + 1\<rparr>)
      else Undefined MemoryArr (unat (I s)))"

definition exec_F :: "cpu \<Rightarrow> outcome" where
  "exec_F s =
    (let x = OP_X (opcode s); nn = opcode s AND 0x00FF in
     if nn = 0x0A then Returned (exec_F0A s)
     else if nn = 0x07 then Returned (s\<lparr>V := (V s)(x := delay_timer s)\<rparr>)
     else if nn = 0x15 then Returned (s\<lparr>delay_timer := V s x\<rparr>)
     else if nn = 0x18 then Returned (s\<lparr>sound_timer := V s x\<rparr>)
     else if nn = 0x1E then Returned (s\<lparr>I := I s + ucast (V s x)\<rparr>)
     else if nn = 0x29 then Returned (s\<lparr>I := ucast (V s x) * 0x5\<rparr>)
     else if nn = 0x33 then exec_F33 s
     else if nn = 0x55 then store_loop [0..<x + 1] s
     else if nn = 0x65 then load_loop [0..<x + 1] s
     else Returned s)"

text \<open>
  The decode switch on \<open>opcode & 0xF000\<close>.  \<open>rnd\<close> is the value the call \<open>rand()\<close> of CXNN
  returns.  The sixteen cases cover every value of the top nibble; the \<open>default\<close> branch
  (the message "ERROR: unrecognized opcode" and \<open>running = false\<close>) is the last \<open>else\<close>.
\<close>

definition execute :: "nat \<Rightarrow> cpu \<Rightarrow> outcome" where
  "execute rnd s =
    (let opc = opcode s; top = opc AND 0xF000; x = OP_X opc; y = OP_Y opc in
     if top = 0x0000 then exec_0 s
     else if top = 0x1000 then Returned (s\<lparr>pc := OP_NNN opc\<rparr>)
     else if top = 0x2000 then exec_2 s
     else if top = 0x3000 then Returned (if V s x = OP_NN opc then s\<lparr>pc := pc s + 2\<rparr> else s)
     else if top = 0x4000 then Returned (if V s x \<noteq> OP_NN opc then s\<lparr>pc := pc s + 2\<rparr> else s)
     else if top = 0x5000 then Returned (if V s x = V s y then s\<lparr>pc := pc s + 2\<rparr> else s)
     else if top = 0x6000 then Returned (s\<lparr>V := (V s)(x := OP_NN opc)\<rparr>)
     else if top = 0x7000 then Returned (s\<lparr>V := (V s)(x := V s x + OP_NN opc)\<rparr>)
     else if top = 0x8000 then Returned (exec_8 s)
     else if top = 0x9000 then Returned (if V s x \<noteq> V s y then s\<lparr>pc := pc s + 2\<rparr> else s)
     else if top = 0xA000 then Returned (s\<lparr>I := OP_NNN opc\<rparr>)
     else if top = 0xB000 then Returned (s\<lparr>pc := OP_NNN opc + ucast (V s 0x0)\<rparr>)
     else if top = 0xC000 then
       Returned (s\<lparr>V := (V s)(x := of_nat (rnd mod 256) AND OP_NN opc)\<rparr>)
     else if top = 0xD000 then exec_D s
     else if top = 0xE000 then exec_E s
     else if top = 0xF000 then exec_F s
     else Returned (s\<lparr>running := False\<rparr>))"

text \<open>
  The whole step: \<open>breakIPF\<close> is reset, the opcode is fetched from \<open>memory[pc]\<close> and
  \<open>memory[pc + 1]\<close>, \<open>pc\<close> is advanced by 2 (in 16 bits), and the opcode is executed.
\<close>

definition executeCycle :: "nat \<Rightarrow> cpu \<Rightarrow> outcome" where
  "executeCycle rnd s =
    (if \<not> unat (pc s) < MEMORY_SIZE then Undefined MemoryArr (unat (pc s))
     else if \<not> unat (pc s) + 1 < MEMORY_SIZE then Undefined MemoryArr (unat (pc s) + 1)
     else execute rnd (s\<lparr>breakIPF := False, opcode := fetch s, pc := pc s + 2\<rparr>))"

subsection \<open>\<open>cpu::timers\<close> (lines 409 to 417)\<close>

definition timers :: "cpu \<Rightarrow> bool \<times> cpu" where
  "timers s =
    (let s1 = (if sound_timer s > 0 then s\<lparr>sound_timer := sound_timer s - 1\<rparr> else s);
         s2 = (if delay_timer s1 > 0 then s1\<lparr>delay_timer := delay_timer s1 - 1\<rparr> else s1)
     in (sound_timer s2 > 0, s2))"

section \<open>Auxiliary definitions for the properties\<close>

subsection \<open>Executing several steps\<close>

text \<open>
  \<open>steps rs s\<close> runs one \<open>executeCycle\<close> per element of \<open>rs\<close> (the values \<open>rand()\<close> would
  return), and is \<open>None\<close> as soon as one step is undefined.
\<close>

fun steps :: "nat list \<Rightarrow> cpu \<Rightarrow> cpu option" where
  "steps [] s = Some s"
| "steps (r # rs) s =
     (case executeCycle r s of Returned s' \<Rightarrow> steps rs s' | Undefined a i \<Rightarrow> None)"

subsection \<open>Concrete machine states\<close>

text \<open>A machine with every byte, register and flag zero, \<open>pc\<close> at 0x200 and \<open>running\<close> set.\<close>

definition zero_state :: cpu where
  "zero_state =
    \<lparr>opcode = 0, memory = (\<lambda>_. 0), V = (\<lambda>_. 0), I = 0, pc = 0x200,
     stack = (\<lambda>_. 0), sp = 0, gfx = (\<lambda>_. 0), key = (\<lambda>_. 0), prevKeys = (\<lambda>_. 0),
     delay_timer = 0, sound_timer = 0, breakIPF = False, draw = False, running = True\<rparr>"

text \<open>The opcode 8008 at 0x200: top nibble 8 with the low nibble 8, which no case handles.\<close>

definition unknown_8008 :: cpu where
  "unknown_8008 = zero_state\<lparr>memory := (memory zero_state)(0x200 := 0x80, 0x201 := 0x08)\<rparr>"

text \<open>The opcode 8016 at 0x200 with \<open>V[0] = 1\<close> and \<open>V[1] = 2\<close>.\<close>

definition shr_8016 :: cpu where
  "shr_8016 =
    zero_state\<lparr>memory := (memory zero_state)(0x200 := 0x80, 0x201 := 0x16),
               V := (V zero_state)(0 := 1, 1 := 2)\<rparr>"

text \<open>A machine whose timers are running when \<open>init\<close> is called.\<close>

definition timers_7_9 :: cpu where
  "timers_7_9 = zero_state\<lparr>delay_timer := 7, sound_timer := 9\<rparr>"

text \<open>The opcode E09E at 0x200 with \<open>V[0] = 3\<close> and key 3 pressed.\<close>

definition skip_E09E :: cpu where
  "skip_E09E =
    zero_state\<lparr>memory := (memory zero_state)(0x200 := 0xE0, 0x201 := 0x9E),
               V := (V zero_state)(0 := 3), key := (key zero_state)(3 := 1)\<rparr>"

text \<open>
  The opcode F30A at 0x200.  In \<open>wait_idle\<close> key 5 is held down and no key has been
  released; in \<open>wait_released\<close> keys 5 and 9 were down in the snapshot and are up now.
\<close>

definition wait_idle :: cpu where
  "wait_idle =
    zero_state\<lparr>memory := (memory zero_state)(0x200 := 0xF3, 0x201 := 0x0A),
               key := (key zero_state)(5 := 1), prevKeys := (prevKeys zero_state)(5 := 1)\<rparr>"

definition wait_released :: cpu where
  "wait_released =
    zero_state\<lparr>memory := (memory zero_state)(0x200 := 0xF3, 0x201 := 0x0A),
               prevKeys := (prevKeys zero_state)(5 := 1, 9 := 1)\<rparr>"

text \<open>
  Arithmetic opcodes at 0x200: 7F01 with \<open>VF = 0\<close>; 71FF with \<open>V[1] = 3\<close>; 8124 with
  \<open>V[1] = 200\<close> and \<open>V[2] = 100\<close>; 8125 with \<open>V[1] = V[2] = 0\<close>; 8127 with \<open>V[1] = 5\<close> and
  \<open>V[2] = 3\<close>.
\<close>

definition add_7F01 :: cpu where
  "add_7F01 = zero_state\<lparr>memory := (memory zero_state)(0x200 := 0x7F, 0x201 := 0x01)\<rparr>"

definition add_71FF :: cpu where
  "add_71FF =
    zero_state\<lparr>memory := (memory zero_state)(0x200 := 0x71, 0x201 := 0xFF),
               V := (V zero_state)(1 := 3)\<rparr>"

definition add_8124 :: cpu where
  "add_8124 =
    zero_state\<lparr>memory := (memory zero_state)(0x200 := 0x81, 0x201 := 0x24),
               V := (V zero_state)(1 := 200, 2 := 100)\<rparr>"

definition sub_8125 :: cpu where
  "sub_8125 = zero_state\<lparr>memory := (memory zero_state)(0x200 := 0x81, 0x201 := 0x25)\<rparr>"

definition sub_8127 :: cpu where
  "sub_8127 =
    zero_state\<lparr>memory := (memory zero_state)(0x200 := 0x81, 0x201 := 0x27),
               V := (V zero_state)(1 := 5, 2 := 3)\<rparr>"

text \<open>
  The opcode F255 at 0x200 and F265 at 0x202, with \<open>V[0..2] = 10, 20, 30\<close>, \<open>V[3] = 40\<close> and
  \<open>I = 0x300\<close>.
\<close>

definition store_F255 :: cpu where
  "store_F255 =
    zero_state\<lparr>memory := (memory zero_state)(0x200 := 0xF2, 0x201 := 0x55,
                                             0x202 := 0xF2, 0x203 := 0x65),
               V := (V zero_state)(0 := 10, 1 := 20, 2 := 30, 3 := 40), I := 0x300\<rparr>"

subsection \<open>The addresses an instruction accesses through \<open>I\<close>\<close>

text \<open>
  In the order of the accesses: the sprite rows DXYN reads (the rows it skips are not
  read), the three bytes FX33 stores, the \<open>X + 1\<close> bytes FX55 stores or FX65 loads.
\<close>

definition I_accesses :: "cpu \<Rightarrow> nat list" where
  "I_accesses s =
    (let opc = fetch s; a = unat (I s) in
     if opc AND 0xF000 = 0xD000 then
       map (\<lambda>height. a + height)
         (filter (\<lambda>height. \<not> unat (V s (OP_Y opc)) mod 32 + height > 32) [0..<OP_N opc])
     else if opc AND 0xF000 = 0xF000 \<and> opc AND 0x00FF = 0x33 then [a, a + 1, a + 2]
     else if opc AND 0xF000 = 0xF000 \<and> (opc AND 0x00FF = 0x55 \<or> opc AND 0x00FF = 0x65) then
       map (\<lambda>i. a + i) [0..<OP_X opc + 1]
     else [])"

text \<open>The opcode F033 at 0x200 with \<open>I = 0xFFE\<close>: the third digit goes to address 0x1000.\<close>

definition bcd_F033_at_FFE :: cpu where
  "bcd_F033_at_FFE =
    zero_state\<lparr>memory := (memory zero_state)(0x200 := 0xF0, 0x201 := 0x33), I := 0xFFE\<rparr>"

text \<open>The opcode D003 at 0x200 with \<open>I = 0xFFE\<close>: the third sprite row is at address 0x1000.\<close>

definition draw_D003_at_FFE :: cpu where
  "draw_D003_at_FFE =
    zero_state\<lparr>memory := (memory zero_state)(0x200 := 0xD0, 0x201 := 0x03), I := 0xFFE\<rparr>"

subsection \<open>Programs\<close>

text \<open>
  What a successful \<open>loadRom\<close> does to the memory: the bytes of the file are copied to
  \<open>memory[0x200]\<close> onwards.
\<close>

definition with_rom :: "u8 list \<Rightarrow> cpu \<Rightarrow> cpu" where
  "with_rom rom s =
    s\<lparr>memory := (\<lambda>a. if 0x200 \<le> a \<and> a < 0x200 + length rom then rom ! (a - 0x200)
                       else memory s a)\<rparr>"

text \<open>
  \<open>follows Ps rs s\<close>: the instructions the machine executes from \<open>s\<close> are fetched from
  inside the memory and their opcodes satisfy \<open>Ps\<close>, one after the other, for as long as
  the steps return.
\<close>

fun follows :: "(u16 \<Rightarrow> bool) list \<Rightarrow> nat list \<Rightarrow> cpu \<Rightarrow> bool" where
  "follows [] rs s = True"
| "follows (P # Ps) [] s = (unat (pc s) + 1 < MEMORY_SIZE \<and> P (fetch s))"
| "follows (P # Ps) (r # rs) s =
     (unat (pc s) + 1 < MEMORY_SIZE \<and> P (fetch s) \<and>
      (case executeCycle r s of Returned s' \<Rightarrow> follows Ps rs s' | Undefined a i \<Rightarrow> True))"

text \<open>
  Sixteen nested subroutines: the one at \<open>0x200 + 4 k\<close> calls the one at
  \<open>0x200 + 4 (k + 1)\<close> and returns; the innermost, at 0x240, only returns.
\<close>

definition call_chain :: cpu where
  "call_chain =
    with_rom
      [0x22, 0x04, 0x00, 0xEE,  0x22, 0x08, 0x00, 0xEE,  0x22, 0x0C, 0x00, 0xEE,
       0x22, 0x10, 0x00, 0xEE,  0x22, 0x14, 0x00, 0xEE,  0x22, 0x18, 0x00, 0xEE,
       0x22, 0x1C, 0x00, 0xEE,  0x22, 0x20, 0x00, 0xEE,  0x22, 0x24, 0x00, 0xEE,
       0x22, 0x28, 0x00, 0xEE,  0x22, 0x2C, 0x00, 0xEE,  0x22, 0x30, 0x00, 0xEE,
       0x22, 0x34, 0x00, 0xEE,  0x22, 0x38, 0x00, 0xEE,  0x22, 0x3C, 0x00, 0xEE,
       0x22, 0x40, 0x00, 0xEE,  0x00, 0xEE]
      zero_state"

text \<open>The opcode 2300 at 0x200 with all sixteen stack entries in use.\<close>

definition call_2300_full :: cpu where
  "call_2300_full = (with_rom [0x23, 0x00] zero_state)\<lparr>sp := 16\<rparr>"

text \<open>The opcode 00EE at 0x200 with nothing on the stack.\<close>

definition ret_00EE_empty :: cpu where
  "ret_00EE_empty = with_rom [0x00, 0xEE] zero_state"

definition is_call :: "u16 \<Rightarrow> bool" where
  "is_call opc = (opc AND 0xF000 = 0x2000)"

definition is_ret :: "u16 \<Rightarrow> bool" where
  "is_ret opc = (opc = 0x00EE)"

subsection \<open>Sprites\<close>

text \<open>
  The test DXYN makes on bit \<open>b\<close> (counted from the most significant) of sprite row
  \<open>height\<close>, and the framebuffer index of the pixel in column \<open>c\<close> of row \<open>r\<close>.
\<close>

definition bit_set :: "u16 \<Rightarrow> nat \<Rightarrow> bool" where
  "bit_set pixel b = (pixel AND drop_bit b 0x80 \<noteq> 0)"

definition sprite_bit :: "cpu \<Rightarrow> nat \<Rightarrow> nat \<Rightarrow> bool" where
  "sprite_bit s height b = bit_set (ucast (memory s (unat (I s) + height))) b"

definition pixel_index :: "nat \<Rightarrow> nat \<Rightarrow> nat" where
  "pixel_index c r = c + r * 64"

text \<open>
  The opcode D012 at 0x200 with \<open>V[0] = 63\<close>, \<open>V[1] = 31\<close> and \<open>I = 0x300\<close>, where the sprite
  rows are 0xC0 and 0xC0: two rows of two pixels, starting in the last column of the
  last row.
\<close>

definition draw_D012_corner :: cpu where
  "draw_D012_corner =
    zero_state\<lparr>memory := (memory zero_state)(0x200 := 0xD0, 0x201 := 0x12,
                                             0x300 := 0xC0, 0x301 := 0xC0),
               V := (V zero_state)(0 := 63, 1 := 31), I := 0x300\<rparr>"

section \<open>Decoding\<close>

lemma top_nibble_mask: "(0xF000 :: u16) = push_bit 12 (mask 4)"
  by (simp add: mask_eq_exp_minus_1)

lemma top_nibble_eq: "(opc :: u16) AND 0xF000 = push_bit 12 (drop_bit 12 opc)"
  unfolding top_nibble_mask
  by (rule bit_word_eqI) (auto simp: bit_simps)

lemma top_nibble_less: "unat (drop_bit 12 (opc :: u16)) < 16"
proof -
  have "unat opc < 2 ^ 16" using unsigned_less[of opc] by simp
  moreover have "unat (drop_bit 12 opc) = unat opc div 2 ^ 12"
    by (simp add: drop_bit_eq_div unat_div)
  ultimately show ?thesis by simp
qed

text \<open>The sixteen case labels of the decode switch are all the values \<open>opcode & 0xF000\<close> has.\<close>

lemma top_nibble_cases:
  "(opc :: u16) AND 0xF000 \<in>
     {0x0000, 0x1000, 0x2000, 0x3000, 0x4000, 0x5000, 0x6000, 0x7000,
      0x8000, 0x9000, 0xA000, 0xB000, 0xC000, 0xD000, 0xE000, 0xF000}"
proof -
  define n where "n = unat (drop_bit 12 opc)"
  have "n < 16" unfolding n_def by (rule top_nibble_less)
  then have "n \<in> {0,1,2,3,4,5,6,7,8,9,10,11,12,13,14,15}" by (simp; arith)
  moreover have "drop_bit 12 opc = of_nat n" by (simp add: n_def)
  ultimately show ?thesis unfolding top_nibble_eq by (elim insertE emptyE; simp)
qed

lemma OP_X_less: "OP_X opc < 16"
proof -
  have "opc AND 0x0F00 \<le> 0x0F00" by (rule word_and_le1)
  then have "unat (opc AND 0x0F00) \<le> 0xF00" by (simp add: word_le_nat_alt)
  moreover have "unat (drop_bit 8 (opc AND 0x0F00)) = unat (opc AND 0x0F00) div 2 ^ 8"
    by (simp add: drop_bit_eq_div unat_div)
  ultimately show ?thesis unfolding OP_X_def by simp
qed

lemma OP_Y_less: "OP_Y opc < 16"
proof -
  have "opc AND 0x00F0 \<le> 0x00F0" by (rule word_and_le1)
  then have "unat (opc AND 0x00F0) \<le> 0xF0" by (simp add: word_le_nat_alt)
  moreover have "unat (drop_bit 4 (opc AND 0x00F0)) = unat (opc AND 0x00F0) div 2 ^ 4"
    by (simp add: drop_bit_eq_div unat_div)
  ultimately show ?thesis unfolding OP_Y_def by simp
qed

lemma OP_N_less: "OP_N opc < 16"
proof -
  have "opc AND 0x000F \<le> 0x000F" by (rule word_and_le1)
  then have "unat (opc AND 0x000F) \<le> 0xF" by (simp add: word_le_nat_alt)
  then show ?thesis unfolding OP_N_def by simp
qed

text \<open>A step whose two opcode bytes lie inside the memory fetches and then executes.\<close>

lemma executeCycle_fetched:
  "unat (pc s) + 1 < MEMORY_SIZE \<Longrightarrow>
   executeCycle rnd s = execute rnd (s\<lparr>breakIPF := False, opcode := fetch s, pc := pc s + 2\<rparr>)"
  by (simp add: executeCycle_def)

section \<open>The register store and load loops\<close>

text \<open>
  While every address stays inside the memory, FX55 copies the registers \<open>k, \<dots>, n - 1\<close> to
  \<open>I, I + 1, \<dots>\<close>, FX65 copies them back, and both leave \<open>I\<close> advanced by the number of
  registers.
\<close>

lemma unat_u16_succ: "unat (w :: u16) < MEMORY_SIZE \<Longrightarrow> unat (w + 1) = unat w + 1"
  by (simp add: unat_word_ariths MEMORY_SIZE_def)

lemma store_loop_upt:
  "unat (I s) + (n - k) \<le> MEMORY_SIZE \<Longrightarrow>
   store_loop [k..<n] s =
     Returned (s\<lparr>memory := (\<lambda>a. if unat (I s) \<le> a \<and> a < unat (I s) + (n - k)
                                 then V s (k + (a - unat (I s))) else memory s a),
                 I := I s + of_nat (n - k)\<rparr>)"
proof (induction "n - k" arbitrary: k s)
  case 0
  then have "(\<lambda>a. if unat (I s) \<le> a \<and> a < unat (I s) + (n - k)
                 then V s (k + (a - unat (I s))) else memory s a) = memory s"
    by (auto simp add: fun_eq_iff)
  with 0 show ?case by simp
next
  case (Suc m)
  then have kn: "k < n" and m: "m = n - Suc k" by simp_all
  from kn have u: "[k..<n] = k # [Suc k..<n]" by (simp add: upt_conv_Cons)
  from kn Suc.prems have a: "unat (I s) < MEMORY_SIZE" by simp
  let ?s1 = "s\<lparr>memory := (memory s)(unat (I s) := V s k), I := I s + 1\<rparr>"
  have i1: "unat (I ?s1) = unat (I s) + 1" using a by (simp add: unat_u16_succ)
  have "unat (I ?s1) + (n - Suc k) \<le> MEMORY_SIZE" using Suc.prems kn unfolding i1 by simp
  from Suc.hyps(1) [OF m this]
  have "store_loop [Suc k..<n] ?s1 =
     Returned (?s1\<lparr>memory := (\<lambda>a. if unat (I ?s1) \<le> a \<and> a < unat (I ?s1) + (n - Suc k)
                                 then V ?s1 (Suc k + (a - unat (I ?s1))) else memory ?s1 a),
                 I := I ?s1 + of_nat (n - Suc k)\<rparr>)" .
  moreover have "(\<lambda>a. if unat (I ?s1) \<le> a \<and> a < unat (I ?s1) + (n - Suc k)
                                 then V ?s1 (Suc k + (a - unat (I ?s1))) else memory ?s1 a)
     = (\<lambda>a. if unat (I s) \<le> a \<and> a < unat (I s) + (n - k)
                                 then V s (k + (a - unat (I s))) else memory s a)"
    unfolding i1 using kn by (auto simp add: fun_eq_iff Suc_diff_Suc le_Suc_eq)
  moreover have "I ?s1 + of_nat (n - Suc k) = I s + of_nat (n - k)"
    using kn by (simp add: Suc_diff_Suc [symmetric])
  ultimately show ?case using a by (simp add: u)
qed

lemma load_loop_upt:
  "unat (I s) + (n - k) \<le> MEMORY_SIZE \<Longrightarrow>
   load_loop [k..<n] s =
     Returned (s\<lparr>V := (\<lambda>j. if k \<le> j \<and> j < n then memory s (unat (I s) + (j - k)) else V s j),
                 I := I s + of_nat (n - k)\<rparr>)"
proof (induction "n - k" arbitrary: k s)
  case 0
  then have "(\<lambda>j. if k \<le> j \<and> j < n then memory s (unat (I s) + (j - k)) else V s j) = V s"
    by (auto simp add: fun_eq_iff)
  with 0 show ?case by simp
next
  case (Suc m)
  then have kn: "k < n" and m: "m = n - Suc k" by simp_all
  from kn have u: "[k..<n] = k # [Suc k..<n]" by (simp add: upt_conv_Cons)
  from kn Suc.prems have a: "unat (I s) < MEMORY_SIZE" by simp
  let ?s1 = "s\<lparr>V := (V s)(k := memory s (unat (I s))), I := I s + 1\<rparr>"
  have i1: "unat (I ?s1) = unat (I s) + 1" using a by (simp add: unat_u16_succ)
  have "unat (I ?s1) + (n - Suc k) \<le> MEMORY_SIZE" using Suc.prems kn unfolding i1 by simp
  from Suc.hyps(1) [OF m this]
  have "load_loop [Suc k..<n] ?s1 =
     Returned (?s1\<lparr>V := (\<lambda>j. if Suc k \<le> j \<and> j < n then memory ?s1 (unat (I ?s1) + (j - Suc k)) else V ?s1 j),
                 I := I ?s1 + of_nat (n - Suc k)\<rparr>)" .
  moreover have "(\<lambda>j. if Suc k \<le> j \<and> j < n then memory ?s1 (unat (I ?s1) + (j - Suc k)) else V ?s1 j)
     = (\<lambda>j. if k \<le> j \<and> j < n then memory s (unat (I s) + (j - k)) else V s j)"
    unfolding i1 using kn by (auto simp add: fun_eq_iff Suc_diff_Suc le_Suc_eq)
  moreover have "I ?s1 + of_nat (n - Suc k) = I s + of_nat (n - k)"
    using kn by (simp add: Suc_diff_Suc [symmetric])
  ultimately show ?case using a by (simp add: u)
qed


lemma store_step:
  assumes "unat (pc s) + 1 < MEMORY_SIZE"
    and "fetch s AND 0xF000 = 0xF000" and "fetch s AND 0x00FF = 0x55"
  shows "executeCycle rnd s =
    store_loop [0..<OP_X (fetch s) + 1] (s\<lparr>breakIPF := False, opcode := fetch s, pc := pc s + 2\<rparr>)"
  using assms by (simp add: executeCycle_fetched execute_def exec_F_def Let_def)

lemma load_step:
  assumes "unat (pc s) + 1 < MEMORY_SIZE"
    and "fetch s AND 0xF000 = 0xF000" and "fetch s AND 0x00FF = 0x65"
  shows "executeCycle rnd s =
    load_loop [0..<OP_X (fetch s) + 1] (s\<lparr>breakIPF := False, opcode := fetch s, pc := pc s + 2\<rparr>)"
  using assms by (simp add: executeCycle_fetched execute_def exec_F_def Let_def)

lemma unat_u16_add:
  "unat (w :: u16) + n \<le> MEMORY_SIZE \<Longrightarrow> unat (w + of_nat n) = unat w + n"
  by (simp add: unat_word_ariths MEMORY_SIZE_def unat_of_nat)

text \<open>
  When the addresses run past the end of the memory, the loops store or load up to
  address 0xFFF and then access the first address outside.
\<close>

lemma store_loop_oob:
  "k < n \<Longrightarrow> \<not> unat (I s) + (n - k) \<le> MEMORY_SIZE \<Longrightarrow>
   store_loop [k..<n] s = Undefined MemoryArr (max (unat (I s)) MEMORY_SIZE)"
proof (induction "n - k" arbitrary: k s)
  case 0
  then show ?case by simp
next
  case (Suc m)
  from Suc.prems have u: "[k..<n] = k # [Suc k..<n]" by (simp add: upt_conv_Cons)
  show ?case
  proof (cases "unat (I s) < MEMORY_SIZE")
    case False
    then show ?thesis by (simp add: u max_def)
  next
    case True
    let ?s1 = "s\<lparr>memory := (memory s)(unat (I s) := V s k), I := I s + 1\<rparr>"
    have i1: "unat (I ?s1) = unat (I s) + 1" using True by (simp add: unat_u16_succ)
    have kn: "Suc k < n" using Suc.prems True by (cases "Suc k = n") auto
    have m: "m = n - Suc k" using Suc.hyps(2) by simp
    have nb: "\<not> unat (I ?s1) + (n - Suc k) \<le> MEMORY_SIZE"
      using Suc.prems kn unfolding i1 by simp
    have "store_loop [Suc k..<n] ?s1 = Undefined MemoryArr (max (unat (I ?s1)) MEMORY_SIZE)"
      by (rule Suc.hyps(1) [OF m kn nb])
    then show ?thesis using True unfolding i1 by (simp add: u max_def)
  qed
qed

lemma load_loop_oob:
  "k < n \<Longrightarrow> \<not> unat (I s) + (n - k) \<le> MEMORY_SIZE \<Longrightarrow>
   load_loop [k..<n] s = Undefined MemoryArr (max (unat (I s)) MEMORY_SIZE)"
proof (induction "n - k" arbitrary: k s)
  case 0
  then show ?case by simp
next
  case (Suc m)
  from Suc.prems have u: "[k..<n] = k # [Suc k..<n]" by (simp add: upt_conv_Cons)
  show ?case
  proof (cases "unat (I s) < MEMORY_SIZE")
    case False
    then show ?thesis by (simp add: u max_def)
  next
    case True
    let ?s1 = "s\<lparr>V := (V s)(k := memory s (unat (I s))), I := I s + 1\<rparr>"
    have i1: "unat (I ?s1) = unat (I s) + 1" using True by (simp add: unat_u16_succ)
    have kn: "Suc k < n" using Suc.prems True by (cases "Suc k = n") auto
    have m: "m = n - Suc k" using Suc.hyps(2) by simp
    have nb: "\<not> unat (I ?s1) + (n - Suc k) \<le> MEMORY_SIZE"
      using Suc.prems kn unfolding i1 by simp
    have "load_loop [Suc k..<n] ?s1 = Undefined MemoryArr (max (unat (I ?s1)) MEMORY_SIZE)"
      by (rule Suc.hyps(1) [OF m kn nb])
    then show ?thesis using True unfolding i1 by (simp add: u max_def)
  qed
qed

lemma find_oob_upt:
  "find (\<lambda>b. \<not> b < M) (map (\<lambda>i. a + i) [k..<n]) =
     (if k < n \<and> \<not> a + n \<le> M then Some (max (a + k) M) else None)"
proof (induction "n - k" arbitrary: k)
  case 0
  then show ?case by simp
next
  case (Suc m)
  then have kn: "k < n" and m: "m = n - Suc k" by simp_all
  from kn have u: "[k..<n] = k # [Suc k..<n]" by (simp add: upt_conv_Cons)
  show ?case using Suc.hyps(1) [OF m] kn by (auto simp add: u max_def)
qed

lemma find_map_filter:
  "find Q (map f (filter R hs)) = map_option f (find (\<lambda>h. R h \<and> Q (f h)) hs)"
  by (induction hs) auto

section \<open>The sprite rows DXYN reads\<close>

text \<open>Drawing changes neither \<open>I\<close> nor the memory; a row that is not skipped is read.\<close>

lemma draw_bit_frame [simp]:
  "I (draw_bit x y h p b s) = I s" "memory (draw_bit x y h p b s) = memory s"
  by (simp_all add: draw_bit_def Let_def)

lemma draw_bits_frame [simp]:
  "I (draw_bits x y h p bs s) = I s" "memory (draw_bits x y h p bs s) = memory s"
  by (induction bs arbitrary: s) simp_all

lemma draw_rows_oob:
  "find (\<lambda>h. \<not> y + h > 32 \<and> \<not> unat (I s) + h < MEMORY_SIZE) hs = Some h \<Longrightarrow>
   draw_rows x y hs s = Undefined MemoryArr (unat (I s) + h)"
proof (induction hs arbitrary: s)
  case Nil
  then show ?case by simp
next
  case (Cons a hs)
  show ?case
  proof (cases "\<not> y + a > 32 \<and> \<not> unat (I s) + a < MEMORY_SIZE")
    case True
    with Cons.prems show ?thesis by simp
  next
    case False
    with Cons.prems have f: "find (\<lambda>h. \<not> y + h > 32 \<and> \<not> unat (I s) + h < MEMORY_SIZE) hs = Some h"
      by simp
    show ?thesis
    proof (cases "y + a > 32")
      case True
      then show ?thesis using Cons.IH [OF f] by simp
    next
      case n: False
      let ?s1 = "draw_bits x y a (ucast (memory s (unat (I s) + a))) [0..<8] s"
      have "draw_rows x y hs ?s1 = Undefined MemoryArr (unat (I ?s1) + h)"
        by (rule Cons.IH) (use f in simp)
      then show ?thesis using n False by (simp del: upt_rec_numeral)
    qed
  qed
qed

lemma draw_rows_ok:
  "find (\<lambda>h. \<not> y + h > 32 \<and> \<not> unat (I s) + h < MEMORY_SIZE) hs = None \<Longrightarrow>
   \<exists>s'. draw_rows x y hs s = Returned s'"
proof (induction hs arbitrary: s)
  case Nil
  then show ?case by simp
next
  case (Cons a hs)
  from Cons.prems have f: "find (\<lambda>h. \<not> y + h > 32 \<and> \<not> unat (I s) + h < MEMORY_SIZE) hs = None"
    and a: "y + a > 32 \<or> unat (I s) + a < MEMORY_SIZE"
    by (auto split: if_splits)
  show ?case
  proof (cases "y + a > 32")
    case True
    then show ?thesis using Cons.IH [OF f] by simp
  next
    case n: False
    let ?s1 = "draw_bits x y a (ucast (memory s (unat (I s) + a))) [0..<8] s"
    have "\<exists>s'. draw_rows x y hs ?s1 = Returned s'"
      by (rule Cons.IH) (use f in simp)
    then show ?thesis using n a by (simp del: upt_rec_numeral)
  qed
qed

section \<open>Calls and returns\<close>

lemma unat_u16_minus_1: "unat (- 1 :: u16) = 65535"
  by (simp add: unsigned_minus_1_eq_mask mask_eq_exp_minus_1)

lemma steps_append:
  "steps (xs @ ys) s = (case steps xs s of None \<Rightarrow> None | Some t \<Rightarrow> steps ys t)"
  by (induction xs arbitrary: s) (auto split: outcome.split)

lemma steps_take_Suc:
  "k < length rs \<Longrightarrow>
   steps (take (Suc k) rs) s =
     (case steps (take k rs) s of None \<Rightarrow> None
      | Some t \<Rightarrow> (case executeCycle (rs ! k) t of Returned t' \<Rightarrow> Some t' | Undefined a i \<Rightarrow> None))"
  by (simp add: take_Suc_conv_app_nth steps_append split: option.split outcome.split)

lemma call_step:
  assumes "unat (pc t) + 1 < MEMORY_SIZE" and "fetch t AND 0xF000 = 0x2000"
  shows "executeCycle r t =
    (if unat (sp t) < 16
     then Returned (t\<lparr>breakIPF := False, opcode := fetch t, pc := OP_NNN (fetch t),
                      stack := (stack t)(unat (sp t) := pc t + 2), sp := sp t + 1\<rparr>)
     else Undefined StackArr (unat (sp t)))"
  using assms by (simp add: executeCycle_fetched execute_def exec_2_def STACK_SIZE_def Let_def)

lemma ret_step:
  assumes "unat (pc t) + 1 < MEMORY_SIZE" and "fetch t = 0x00EE"
  shows "executeCycle r t =
    (if unat (sp t - 1) < 16
     then Returned (t\<lparr>breakIPF := False, opcode := 0x00EE, sp := sp t - 1,
                      pc := stack t (unat (sp t - 1))\<rparr>)
     else Undefined StackArr (unat (sp t - 1)))"
  using assms by (simp add: executeCycle_fetched execute_def exec_0_def STACK_SIZE_def Let_def)

lemma unat_sp_succ: "unat (w :: u16) < 16 \<Longrightarrow> unat (w + 1) = unat w + 1"
  by (simp add: unat_word_ariths)

lemma unat_sp_pred: "0 < unat (w :: u16) \<Longrightarrow> unat (w - 1) = unat w - 1"
  by (simp add: unat_minus_one unat_gt_0)


lemma calls_then_returns:
  assumes s0: "sp s = 0" and len: "length rs = 32"
    and calls: "\<forall>k<16. \<forall>t. steps (take k rs) s = Some t \<longrightarrow>
                 unat (pc t) + 1 < MEMORY_SIZE \<and> fetch t AND 0xF000 = 0x2000"
    and rets: "\<forall>k. 16 \<le> k \<and> k < 32 \<longrightarrow>
                 (\<forall>t. steps (take k rs) s = Some t \<longrightarrow>
                    unat (pc t) + 1 < MEMORY_SIZE \<and> fetch t = 0x00EE)"
  shows "\<forall>k<16. \<exists>t u. steps (take k rs) s = Some t \<and> steps (take (32 - k) rs) s = Some u \<and>
                  pc u = pc t + 2 \<and> sp u = sp t"
proof -
  define st where "st k = steps (take k rs) s" for k
  have st_Suc: "st (Suc k) =
      (case executeCycle (rs ! k) t of Returned t' \<Rightarrow> Some t' | Undefined a i \<Rightarrow> None)"
    if "k < 32" "st k = Some t" for k t
    using that len by (simp add: st_def steps_take_Suc)
  have P1: "\<exists>t. st k = Some t \<and> unat (sp t) = k \<and>
               (\<forall>j<k. \<exists>tj. st j = Some tj \<and> stack t j = pc tj + 2)" if "k \<le> 16" for k
    using that
  proof (induction k)
    case 0
    then show ?case by (simp add: st_def s0)
  next
    case (Suc k)
    then obtain t where t: "st k = Some t" "unat (sp t) = k"
      "\<forall>j<k. \<exists>tj. st j = Some tj \<and> stack t j = pc tj + 2" by auto
    from Suc.prems have k: "k < 16" by simp
    with calls t(1) have c: "unat (pc t) + 1 < MEMORY_SIZE" "fetch t AND 0xF000 = 0x2000"
      by (auto simp add: st_def)
    let ?t' = "t\<lparr>breakIPF := False, opcode := fetch t, pc := OP_NNN (fetch t),
                  stack := (stack t)(unat (sp t) := pc t + 2), sp := sp t + 1\<rparr>"
    have "executeCycle (rs ! k) t = Returned ?t'"
      using call_step [OF c] k t(2) by simp
    then have s': "st (Suc k) = Some ?t'" using st_Suc [of k t] k t(1) by simp
    have sp': "unat (sp ?t') = Suc k" using k t(2) by (simp add: unat_sp_succ)
    have "\<exists>tj. st j = Some tj \<and> stack ?t' j = pc tj + 2" if "j < Suc k" for j
    proof (cases "j = k")
      case True
      then show ?thesis using t(1,2) by simp
    next
      case False
      with that have "j < k" by simp
      with t(3) obtain tj where "st j = Some tj" "stack t j = pc tj + 2" by blast
      then show ?thesis using False t(2) by simp
    qed
    with s' sp' show ?case by blast
  qed
  from P1 [of 16] obtain t16 where t16: "st 16 = Some t16" "unat (sp t16) = 16"
    "\<forall>j<16. \<exists>tj. st j = Some tj \<and> stack t16 j = pc tj + 2" by auto
  have P2: "\<exists>u. st (16 + j) = Some u \<and> unat (sp u) = 16 - j \<and> stack u = stack t16 \<and>
               (0 < j \<longrightarrow> pc u = stack t16 (16 - j))" if "j \<le> 16" for j
    using that
  proof (induction j)
    case 0
    then show ?case using t16 by simp
  next
    case (Suc j)
    then obtain u where u: "st (16 + j) = Some u" "unat (sp u) = 16 - j" "stack u = stack t16"
      by auto
    from Suc.prems have j: "j < 16" by simp
    have "16 \<le> 16 + j \<and> 16 + j < 32" using j by simp
    with rets u(1) have c: "unat (pc u) + 1 < MEMORY_SIZE" "fetch u = 0x00EE"
      unfolding st_def by blast+
    have pr: "unat (sp u - 1) = 16 - Suc j" using j u(2) by (simp add: unat_sp_pred)
    let ?u' = "u\<lparr>breakIPF := False, opcode := 0x00EE, sp := sp u - 1,
                  pc := stack u (unat (sp u - 1))\<rparr>"
    have "executeCycle (rs ! (16 + j)) u = Returned ?u'"
      using ret_step [OF c] pr by simp
    then have "st (Suc (16 + j)) = Some ?u'" using st_Suc [of "16 + j" u] j u(1) by simp
    then have "st (16 + Suc j) = Some ?u'" by simp
    moreover have "unat (sp ?u') = 16 - Suc j" using pr by simp
    moreover have "stack ?u' = stack t16" using u(3) by simp
    moreover have "pc ?u' = stack t16 (16 - Suc j)" using pr u(3) by simp
    ultimately show ?case by blast
  qed
  show ?thesis
  proof (intro allI impI)
    fix k :: nat assume k: "k < 16"
    from t16(3) k obtain tk where tk: "st k = Some tk" "stack t16 k = pc tk + 2" by blast
    from P1 [of k] k tk(1) have spk: "unat (sp tk) = k" by auto
    from P2 [of "16 - k"] k obtain u where u: "st (32 - k) = Some u" "unat (sp u) = k"
      "pc u = stack t16 k" by auto
    have "sp u = sp tk" using spk u(2) by (simp add: word_unat_eq_iff)
    with tk u show "\<exists>t u. steps (take k rs) s = Some t \<and> steps (take (32 - k) rs) s = Some u \<and>
                  pc u = pc t + 2 \<and> sp u = sp t"
      unfolding st_def by auto
  qed
qed

text \<open>The program \<open>call_chain\<close> executes sixteen calls and then sixteen returns.\<close>

lemma follows_steps:
  "follows Ps rs s \<Longrightarrow> k < length Ps \<Longrightarrow> k \<le> length rs \<Longrightarrow>
   steps (take k rs) s = Some t \<Longrightarrow> unat (pc t) + 1 < MEMORY_SIZE \<and> (Ps ! k) (fetch t)"
proof (induction k arbitrary: Ps rs s)
  case 0
  then obtain P Ps' where "Ps = P # Ps'" by (cases Ps) auto
  with 0 show ?case by (cases rs) auto
next
  case (Suc k)
  then obtain P Ps' where Ps: "Ps = P # Ps'" by (cases Ps) auto
  from Suc.prems obtain r rs' where rs: "rs = r # rs'" by (cases rs) auto
  from Suc.prems(4) obtain s' where s': "executeCycle r s = Returned s'"
    "steps (take k rs') s' = Some t"
    unfolding rs by (auto split: outcome.splits)
  have "follows Ps' rs' s'" using Suc.prems(1) s'(1) unfolding Ps rs by simp
  from Suc.IH [OF this _ _ s'(2)] Suc.prems(2,3) show ?case unfolding Ps rs by simp
qed

lemma rep: "replicate 16 x = [x,x,x,x,x,x,x,x,x,x,x,x,x,x,x,x]"
  "replicate 32 x = [x,x,x,x,x,x,x,x,x,x,x,x,x,x,x,x,x,x,x,x,x,x,x,x,x,x,x,x,x,x,x,x]"
  by (simp_all add: numeral_eq_Suc)

lemma chain_follows:
  "follows (replicate 16 is_call @ replicate 16 is_ret) (replicate 32 0) call_chain"
  unfolding rep
  by (simp add: executeCycle_def execute_def exec_0_def exec_2_def fetch_def
      call_chain_def with_rom_def zero_state_def MEMORY_SIZE_def STACK_SIZE_def Let_def OP_NNN_def
      is_call_def is_ret_def)

section \<open>The pixels DXYN toggles\<close>

text \<open>
  One bit of the sprite toggles at most one pixel; the bits of a row and the rows of a
  sprite go to different pixels, so that no pixel is toggled twice.
\<close>

lemma draw_bit_gfx:
  "gfx (draw_bit x y h p b s) =
     (if x + b \<le> 64 \<and> bit_set p b
      then (gfx s)(pixel_index ((x + b) mod 64) ((y + h) mod 32) :=
                     gfx s (pixel_index ((x + b) mod 64) ((y + h) mod 32)) XOR 1)
      else gfx s)"
  by (simp add: draw_bit_def pixel_index_def bit_set_def Let_def not_less)

lemma window_inj:
  assumes "b < n" "b' < n" "(x + b) mod n = (x + b') mod n"
  shows "b = (b'::nat)"
proof -
  have aux: "c = d" if "c \<le> d" "d < n" "(x + c) mod n = (x + d) mod n" for c d :: nat
  proof -
    from that(1) have "x + c \<le> x + d" by simp
    then have "n dvd (x + d) - (x + c)"
      using that(3) [symmetric] by (simp only: mod_eq_dvd_iff_nat)
    then have "n dvd d - c" by simp
    moreover have "d - c < n" using that(2) by simp
    ultimately have "d - c = 0" using nat_dvd_not_less by blast
    with that(1) show ?thesis by simp
  qed
  show ?thesis
  proof (cases "b \<le> b'")
    case True
    then show ?thesis using aux [of b b'] assms by simp
  next
    case False
    then show ?thesis using aux [of b' b] assms by simp
  qed
qed

lemma pixel_index_inj:
  assumes "c < 64" "c' < 64" "pixel_index c r = pixel_index c' r'"
  shows "c = c' \<and> r = r'"
proof -
  from assms(3) have e: "c + r * 64 = c' + r' * 64" by (simp add: pixel_index_def)
  have "(c + r * 64) mod 64 = c" "(c' + r' * 64) mod 64 = c'" using assms(1,2) by simp_all
  with e have "c = c'" by simp
  with e show ?thesis by simp
qed

lemma toggle_twice:
  assumes "g2 = (if B then g1 XOR 1 else g1)" and "g1 = (if A then g0 XOR 1 else g0)"
    and "\<not> (A \<and> B)"
  shows "g2 = (if A \<or> B then g0 XOR 1 else (g0 :: u8))"
  using assms by (cases A; cases B; simp)

lemma draw_bits_gfx:
  "distinct bs \<Longrightarrow> \<forall>b\<in>set bs. b < 64 \<Longrightarrow>
   gfx (draw_bits x y h p bs s) q =
     (if \<exists>b\<in>set bs. x + b \<le> 64 \<and> bit_set p b \<and>
                      q = pixel_index ((x + b) mod 64) ((y + h) mod 32)
      then gfx s q XOR 1 else gfx s q)"
proof (induction bs arbitrary: s)
  case Nil
  then show ?case by simp
next
  case (Cons a bs)
  let ?hit = "\<lambda>b. x + b \<le> 64 \<and> bit_set p b \<and>
                      q = pixel_index ((x + b) mod 64) ((y + h) mod 32)"
  let ?s1 = "draw_bit x y h p a s"
  from Cons.prems have d: "distinct bs" "\<forall>b\<in>set bs. b < 64" "a \<notin> set bs" "a < 64" by simp_all
  have ih: "gfx (draw_bits x y h p bs ?s1) q =
      (if \<exists>b\<in>set bs. ?hit b then gfx ?s1 q XOR 1 else gfx ?s1 q)"
    by (rule Cons.IH [OF d(1,2)])
  have s1: "gfx ?s1 q = (if ?hit a then gfx s q XOR 1 else gfx s q)"
    by (simp add: draw_bit_gfx)
  have excl: "\<not> (?hit a \<and> (\<exists>b\<in>set bs. ?hit b))"
  proof
    assume "?hit a \<and> (\<exists>b\<in>set bs. ?hit b)"
    then obtain b where b: "b \<in> set bs"
      and qa: "q = pixel_index ((x + a) mod 64) ((y + h) mod 32)"
      and qb: "q = pixel_index ((x + b) mod 64) ((y + h) mod 32)" by blast
    from qa qb have "pixel_index ((x + a) mod 64) ((y + h) mod 32) =
               pixel_index ((x + b) mod 64) ((y + h) mod 32)" by (rule subst)
    with pixel_index_inj [of "(x + a) mod 64" "(x + b) mod 64"]
    have e: "(x + a) mod 64 = (x + b) mod 64" by (simp only: mod_less_divisor zero_less_numeral)
    from d(2) b have "b < 64" by blast
    from window_inj [OF d(4) this e] have "a = b" .
    with b d(3) show False by blast
  qed
  have "(\<exists>b\<in>set (a # bs). ?hit b) = (?hit a \<or> (\<exists>b\<in>set bs. ?hit b))" by simp
  moreover have "gfx (draw_bits x y h p (a # bs) s) q = gfx (draw_bits x y h p bs ?s1) q"
    by simp
  ultimately show ?case using toggle_twice [OF ih s1 excl] by (simp only:)
qed

lemma sprite_bit_draw_bits [simp]:
  "sprite_bit (draw_bits x y h p bs s) = sprite_bit s"
  by (simp add: sprite_bit_def fun_eq_iff)

lemma draw_rows_gfx:
  "distinct hs \<Longrightarrow> \<forall>h\<in>set hs. h < 32 \<Longrightarrow>
   \<forall>h\<in>set hs. y + h \<le> 32 \<longrightarrow> unat (I s) + h < MEMORY_SIZE \<Longrightarrow>
   \<exists>s'. draw_rows x y hs s = Returned s' \<and>
     (\<forall>q. gfx s' q =
        (if \<exists>h\<in>set hs. \<exists>b<8. y + h \<le> 32 \<and> x + b \<le> 64 \<and> sprite_bit s h b \<and>
                          q = pixel_index ((x + b) mod 64) ((y + h) mod 32)
         then gfx s q XOR 1 else gfx s q))"
proof (induction hs arbitrary: s)
  case Nil
  then show ?case by simp
next
  case (Cons a hs)
  let ?hit = "\<lambda>q h b. y + h \<le> 32 \<and> x + b \<le> 64 \<and> sprite_bit s h b \<and>
                          q = pixel_index ((x + b) mod 64) ((y + h) mod 32)"
  from Cons.prems have d: "distinct hs" "\<forall>h\<in>set hs. h < 32" "a \<notin> set hs" "a < 32"
    and m: "\<forall>h\<in>set hs. y + h \<le> 32 \<longrightarrow> unat (I s) + h < MEMORY_SIZE"
    and ma: "y + a \<le> 32 \<longrightarrow> unat (I s) + a < MEMORY_SIZE"
    by simp_all
  show ?case
  proof (cases "y + a > 32")
    case True
    from Cons.IH [OF d(1,2) m] obtain s' where s': "draw_rows x y hs s = Returned s'"
      "\<forall>q. gfx s' q = (if \<exists>h\<in>set hs. \<exists>b<8. ?hit q h b then gfx s q XOR 1 else gfx s q)"
      by blast
    have "draw_rows x y (a # hs) s = Returned s'" using True s'(1) by simp
    moreover have "gfx s' q = (if \<exists>h\<in>set (a # hs). \<exists>b<8. ?hit q h b
                               then gfx s q XOR 1 else gfx s q)" for q
      using s'(2) True by simp
    ultimately show ?thesis by blast
  next
    case False
    then have ya: "y + a \<le> 32" by simp
    with ma have inb: "unat (I s) + a < MEMORY_SIZE" by simp
    let ?p = "ucast (memory s (unat (I s) + a)) :: u16"
    let ?s1 = "draw_bits x y a ?p [0..<8] s"
    have m1: "\<forall>h\<in>set hs. y + h \<le> 32 \<longrightarrow> unat (I ?s1) + h < MEMORY_SIZE"
      using m by simp
    from Cons.IH [OF d(1,2) m1] obtain s' where s': "draw_rows x y hs ?s1 = Returned s'"
      "\<forall>q. gfx s' q = (if \<exists>h\<in>set hs. \<exists>b<8. y + h \<le> 32 \<and> x + b \<le> 64 \<and> sprite_bit ?s1 h b \<and>
                          q = pixel_index ((x + b) mod 64) ((y + h) mod 32)
                        then gfx ?s1 q XOR 1 else gfx ?s1 q)"
      by blast
    have r: "draw_rows x y (a # hs) s = Returned s'"
      using False inb s'(1) by (simp del: upt_rec_numeral)
    have bex: "(\<exists>b\<in>set [0..<8]. P b) = (\<exists>b<8. P b)" for P :: "nat \<Rightarrow> bool"
      by auto
    have "gfx ?s1 q = (if \<exists>b\<in>set [0..<8]. x + b \<le> 64 \<and> bit_set ?p b \<and>
                      q = pixel_index ((x + b) mod 64) ((y + a) mod 32)
                       then gfx s q XOR 1 else gfx s q)" for q
      by (rule draw_bits_gfx) (simp_all del: upt_rec_numeral)
    then have g1: "gfx ?s1 q = (if \<exists>b<8. ?hit q a b then gfx s q XOR 1 else gfx s q)" for q
      unfolding bex using ya by (simp add: sprite_bit_def)
    have excl: "\<not> ((\<exists>b<8. ?hit q a b) \<and> (\<exists>h\<in>set hs. \<exists>b<8. ?hit q h b))" for q
    proof
      assume "(\<exists>b<8. ?hit q a b) \<and> (\<exists>h\<in>set hs. \<exists>b<8. ?hit q h b)"
      then obtain b h b' where h: "h \<in> set hs"
        and qa: "q = pixel_index ((x + b) mod 64) ((y + a) mod 32)"
        and qb: "q = pixel_index ((x + b') mod 64) ((y + h) mod 32)"
        by blast
      from qa qb have "pixel_index ((x + b) mod 64) ((y + a) mod 32) =
          pixel_index ((x + b') mod 64) ((y + h) mod 32)" by (rule subst)
      with pixel_index_inj [of "(x + b) mod 64" "(x + b') mod 64"]
      have e: "(y + a) mod 32 = (y + h) mod 32"
        by (simp only: mod_less_divisor zero_less_numeral)
      from d(2) h have "h < 32" by blast
      from window_inj [OF d(4) this e] have "a = h" .
      with h d(3) show False by blast
    qed
    have "gfx s' q = (if \<exists>h\<in>set (a # hs). \<exists>b<8. ?hit q h b
                      then gfx s q XOR 1 else gfx s q)" for q
    proof -
      have "gfx s' q = (if \<exists>h\<in>set hs. \<exists>b<8. ?hit q h b then gfx ?s1 q XOR 1 else gfx ?s1 q)"
        using s'(2) by (simp only: sprite_bit_draw_bits)
      from toggle_twice [OF this g1 excl]
      have "gfx s' q = (if (\<exists>b<8. ?hit q a b) \<or> (\<exists>h\<in>set hs. \<exists>b<8. ?hit q h b)
                        then gfx s q XOR 1 else gfx s q)" .
      moreover have "(\<exists>h\<in>set (a # hs). \<exists>b<8. ?hit q h b) =
          ((\<exists>b<8. ?hit q a b) \<or> (\<exists>h\<in>set hs. \<exists>b<8. ?hit q h b))"
        by simp
      ultimately show ?thesis by (simp only:)
    qed
    with r show ?thesis by blast
  qed
qed


lemma draw_step:
  assumes "unat (pc s) + 1 < MEMORY_SIZE" and "fetch s AND 0xF000 = 0xD000"
  shows "executeCycle rnd s =
    (case draw_rows (unat (V s (OP_X (fetch s))) mod 64) (unat (V s (OP_Y (fetch s))) mod 32)
            [0..<OP_N (fetch s)]
            (s\<lparr>breakIPF := False, opcode := fetch s, pc := pc s + 2, V := (V s)(0xF := 0)\<rparr>) of
       Returned s1 \<Rightarrow> Returned (s1\<lparr>breakIPF := True, draw := True\<rparr>)
     | Undefined a i \<Rightarrow> Undefined a i)"
  using assms by (simp add: executeCycle_fetched execute_def exec_D_def Let_def)

lemma upt_0_8: "[0..<8] = [0, 1, 2, 3, 4, 5, 6, 7]"
  by (simp add: upt_conv_Cons)

lemma upt_0_2: "[0..<2] = [0, 1]"
  by (simp add: upt_conv_Cons)

text \<open>The test \<open>pixel & (0x80 >> bit)\<close> reads the bits of the row from the most significant.\<close>

lemma bit_set_msb_first: "b < 8 \<Longrightarrow> bit_set (ucast (m :: u8)) b = bit m (7 - b)"
proof -
  assume "b < 8"
  then have "b \<in> {0, 1, 2, 3, 4, 5, 6, 7}" by (simp; arith)
  then have "drop_bit b (0x80 :: u16) = 2 ^ (7 - b)" by (elim insertE emptyE; simp)
  then have "bit_set (ucast m) b = bit (ucast m :: u16) (7 - b)"
    by (simp add: bit_set_def and_exp_eq_0_iff_not_bit)
  also have "\<dots> = bit m (7 - b)" by (auto simp add: bit_ucast_iff)
  finally show ?thesis .
qed

section \<open>Unrecognized opcodes\<close>

text \<open>
  No step changes \<open>running\<close>: every value of the top nibble has a case of its own, none of
  which assigns it, so the \<open>default\<close> branch is never taken.
\<close>

lemma draw_bit_running [simp]: "running (draw_bit x y h p b s) = running s"
  by (simp add: draw_bit_def Let_def)

lemma draw_bits_running [simp]: "running (draw_bits x y h p bs s) = running s"
  by (induction bs arbitrary: s) simp_all

lemma draw_rows_running: "draw_rows x y hs s = Returned s' \<Longrightarrow> running s' = running s"
proof (induction hs arbitrary: s)
  case Nil
  then show ?case by simp
next
  case (Cons a hs)
  show ?case
  proof (cases "y + a > 32")
    case True
    with Cons show ?thesis by simp
  next
    case False
    with Cons.prems have
      "draw_rows x y hs (draw_bits x y a (ucast (memory s (unat (I s) + a))) [0..<8] s) = Returned s'"
      by (simp del: upt_rec_numeral split: if_splits)
    from Cons.IH [OF this] show ?thesis by simp
  qed
qed

lemma store_loop_running: "store_loop xs s = Returned s' \<Longrightarrow> running s' = running s"
proof (induction xs arbitrary: s)
  case Nil
  then show ?case by simp
next
  case (Cons a xs)
  from Cons.prems have
    "store_loop xs (s\<lparr>memory := (memory s)(unat (I s) := V s a), I := I s + 1\<rparr>) = Returned s'"
    by (simp split: if_splits)
  from Cons.IH [OF this] show ?case by simp
qed

lemma load_loop_running: "load_loop xs s = Returned s' \<Longrightarrow> running s' = running s"
proof (induction xs arbitrary: s)
  case Nil
  then show ?case by simp
next
  case (Cons a xs)
  from Cons.prems have
    "load_loop xs (s\<lparr>V := (V s)(a := memory s (unat (I s))), I := I s + 1\<rparr>) = Returned s'"
    by (simp split: if_splits)
  from Cons.IH [OF this] show ?case by simp
qed

lemma exec_0_running: "exec_0 s = Returned s' \<Longrightarrow> running s' = running s"
  by (auto simp add: exec_0_def Let_def split: if_splits)

lemma exec_2_running: "exec_2 s = Returned s' \<Longrightarrow> running s' = running s"
  by (auto simp add: exec_2_def split: if_splits)

lemma exec_8_running: "running (exec_8 s) = running s"
  by (simp add: exec_8_def Let_def)

lemma exec_D_running: "exec_D s = Returned s' \<Longrightarrow> running s' = running s"
  by (auto simp add: exec_D_def Let_def split: outcome.splits dest!: draw_rows_running)

lemma exec_E_running: "exec_E s = Returned s' \<Longrightarrow> running s' = running s"
  by (auto simp add: exec_E_def Let_def split: if_splits)

lemma exec_F0A_running: "running (exec_F0A s) = running s"
  by (simp add: exec_F0A_def del: upt_rec_numeral split: option.split)

lemma exec_F_running: "exec_F s = Returned s' \<Longrightarrow> running s' = running s"
  by (auto simp add: exec_F_def exec_F33_def exec_F0A_running Let_def split: if_splits
      dest: store_loop_running load_loop_running)

lemma execute_running:
  assumes "execute rnd s = Returned s'"
  shows "running s' = running s"
proof -
  from top_nibble_cases [of "opcode s"]
  consider "opcode s AND 0xF000 = 0x0000" | "opcode s AND 0xF000 = 0x1000"
    | "opcode s AND 0xF000 = 0x2000" | "opcode s AND 0xF000 = 0x3000"
    | "opcode s AND 0xF000 = 0x4000" | "opcode s AND 0xF000 = 0x5000"
    | "opcode s AND 0xF000 = 0x6000" | "opcode s AND 0xF000 = 0x7000"
    | "opcode s AND 0xF000 = 0x8000" | "opcode s AND 0xF000 = 0x9000"
    | "opcode s AND 0xF000 = 0xA000" | "opcode s AND 0xF000 = 0xB000"
    | "opcode s AND 0xF000 = 0xC000" | "opcode s AND 0xF000 = 0xD000"
    | "opcode s AND 0xF000 = 0xE000" | "opcode s AND 0xF000 = 0xF000"
    by blast
  then show ?thesis
  proof cases
    case 1
    with assms show ?thesis by (simp add: execute_def Let_def exec_0_running)
  next
    case 2
    with assms show ?thesis by (auto simp add: execute_def Let_def)
  next
    case 3
    with assms show ?thesis by (simp add: execute_def Let_def exec_2_running)
  next
    case 4
    with assms show ?thesis by (auto simp add: execute_def Let_def split: if_splits)
  next
    case 5
    with assms show ?thesis by (auto simp add: execute_def Let_def split: if_splits)
  next
    case 6
    with assms show ?thesis by (auto simp add: execute_def Let_def split: if_splits)
  next
    case 7
    with assms show ?thesis by (auto simp add: execute_def Let_def)
  next
    case 8
    with assms show ?thesis by (auto simp add: execute_def Let_def)
  next
    case 9
    with assms show ?thesis by (auto simp add: execute_def Let_def exec_8_running)
  next
    case 10
    with assms show ?thesis by (auto simp add: execute_def Let_def split: if_splits)
  next
    case 11
    with assms show ?thesis by (auto simp add: execute_def Let_def)
  next
    case 12
    with assms show ?thesis by (auto simp add: execute_def Let_def)
  next
    case 13
    with assms show ?thesis by (auto simp add: execute_def Let_def)
  next
    case 14
    with assms show ?thesis by (simp add: execute_def Let_def exec_D_running)
  next
    case 15
    with assms show ?thesis by (simp add: execute_def Let_def exec_E_running)
  next
    case 16
    with assms show ?thesis by (simp add: execute_def Let_def exec_F_running)
  qed
qed

lemma executeCycle_never_halts:
  "executeCycle rnd s = Returned s' \<Longrightarrow> running s' = running s"
  by (auto simp add: executeCycle_def split: if_splits dest: execute_running)

text \<open>
  Claim C1: for every opcode that is not one of the recognized instruction forms, the step
  halts execution and reports UnknownOpcode; no unrecognized opcode is a silent no-op.

  The code does not do this.  Its only report is the \<open>default\<close> branch of the outer switch,
  which no opcode reaches (\<open>executeCycle_never_halts\<close>), and the inner switches of the cases
  0, 8, E and F have no \<open>default\<close>.  The opcode 8008 is fetched, \<open>pc\<close> is advanced, nothing else
  changes and \<open>running\<close> stays set.
\<close>

theorem unknown_8008_silent_noop:
  "executeCycle 0 unknown_8008 = Returned (unknown_8008\<lparr>opcode := 0x8008, pc := 0x202\<rparr>)
   \<and> running (unknown_8008\<lparr>opcode := 0x8008, pc := 0x202\<rparr>)"
  by (simp add: executeCycle_def execute_def exec_8_def fetch_def unknown_8008_def
      zero_state_def MEMORY_SIZE_def Let_def)

section \<open>Memory accesses through \<open>I\<close>\<close>

text \<open>
  Claim C2: for every executed opcode that reads or writes memory through \<open>I\<close> (DXYN,
  FX33, FX55, FX65), if the accessed address exceeds 0xFFF the step reports
  MemoryOutOfBounds instead of performing the access; no access outside the 4096 bytes
  occurs.

  Counterexample for C2: the code compares no address with the size of the memory.  F033
  with \<open>I = 0xFFE\<close> stores at 0xFFE and 0xFFF and then at 0x1000, outside the array.
\<close>

theorem bcd_F033_at_FFE_out_of_memory:
  "executeCycle 0 bcd_F033_at_FFE = Undefined MemoryArr 0x1000"
  by (simp add: executeCycle_def execute_def exec_F_def exec_F33_def fetch_def
      bcd_F033_at_FFE_def zero_state_def MEMORY_SIZE_def Let_def)

text \<open>
  Claim C2 as amended: the code has no MemoryOutOfBounds report and checks no address.
  For DXYN, FX33, FX55 and FX65 fetched from inside the memory: when every address the
  instruction accesses through \<open>I\<close> is at most 0xFFF the step completes; otherwise the
  instruction performs its accesses in order up to and including the first one above
  0xFFF, which is outside the array (undefined behaviour in C++).
\<close>

theorem I_access_unchecked:
  assumes "unat (pc s) + 1 < MEMORY_SIZE"
    and "fetch s AND 0xF000 = 0xD000 \<or>
         fetch s AND 0xF000 = 0xF000 \<and>
           (fetch s AND 0x00FF = 0x33 \<or> fetch s AND 0x00FF = 0x55 \<or> fetch s AND 0x00FF = 0x65)"
  shows "case find (\<lambda>a. \<not> a < MEMORY_SIZE) (I_accesses s) of
           None \<Rightarrow> (\<exists>s'. executeCycle rnd s = Returned s')
         | Some a \<Rightarrow> executeCycle rnd s = Undefined MemoryArr a"
proof -
  let ?t = "s\<lparr>breakIPF := False, opcode := fetch s, pc := pc s + 2\<rparr>"
  have ex: "executeCycle rnd s = execute rnd ?t"
    using assms(1) by (rule executeCycle_fetched)
  consider (D) "fetch s AND 0xF000 = 0xD000"
    | (F33) "fetch s AND 0xF000 = 0xF000" "fetch s AND 0x00FF = 0x33"
    | (F55) "fetch s AND 0xF000 = 0xF000" "fetch s AND 0x00FF = 0x55"
    | (F65) "fetch s AND 0xF000 = 0xF000" "fetch s AND 0x00FF = 0x65"
    using assms(2) by blast
  then show ?thesis
  proof cases
    case D
    let ?y = "unat (V s (OP_Y (fetch s))) mod 32"
    let ?x = "unat (V s (OP_X (fetch s))) mod 64"
    let ?P = "\<lambda>h. \<not> ?y + h > 32 \<and> \<not> unat (I s) + h < MEMORY_SIZE"
    let ?d = "draw_rows ?x ?y [0..<OP_N (fetch s)] (?t\<lparr>V := (V ?t)(0xF := 0)\<rparr>)"
    have acc: "find (\<lambda>a. \<not> a < MEMORY_SIZE) (I_accesses s) =
        map_option (\<lambda>h. unat (I s) + h) (find ?P [0..<OP_N (fetch s)])"
      using D by (simp add: I_accesses_def Let_def find_map_filter)
    have exd: "executeCycle rnd s =
        (case ?d of Returned s1 \<Rightarrow> Returned (s1\<lparr>breakIPF := True, draw := True\<rparr>)
         | Undefined a i \<Rightarrow> Undefined a i)"
      using D by (simp add: ex execute_def exec_D_def Let_def)
    show ?thesis
    proof (cases "find ?P [0..<OP_N (fetch s)]")
      case None
      then have "\<exists>s'. ?d = Returned s'" by (intro draw_rows_ok) simp
      then show ?thesis using None by (auto simp add: acc exd)
    next
      case (Some h)
      then have "?d = Undefined MemoryArr (unat (I (?t\<lparr>V := (V ?t)(0xF := 0)\<rparr>)) + h)"
        by (intro draw_rows_oob) simp
      then show ?thesis using Some by (simp add: acc exd)
    qed
  next
    case F33
    then show ?thesis
      by (simp add: ex execute_def exec_F_def exec_F33_def I_accesses_def Let_def)
  next
    case F55
    have acc: "find (\<lambda>a. \<not> a < MEMORY_SIZE) (I_accesses s) =
        (if \<not> unat (I s) + (OP_X (fetch s) + 1) \<le> MEMORY_SIZE
         then Some (max (unat (I s)) MEMORY_SIZE) else None)"
      using F55 find_oob_upt [of MEMORY_SIZE "unat (I s)" 0 "OP_X (fetch s) + 1"]
      by (simp add: I_accesses_def Let_def)
    have exd: "executeCycle rnd s = store_loop [0..<OP_X (fetch s) + 1] ?t"
      using F55 by (simp add: ex execute_def exec_F_def Let_def)
    show ?thesis
    proof (cases "unat (I s) + (OP_X (fetch s) + 1) \<le> MEMORY_SIZE")
      case True
      then show ?thesis
        using store_loop_upt [of ?t "OP_X (fetch s) + 1" 0] by (simp add: acc exd)
    next
      case False
      then show ?thesis
        using store_loop_oob [of 0 "OP_X (fetch s) + 1" ?t] by (simp add: acc exd)
    qed
  next
    case F65
    have acc: "find (\<lambda>a. \<not> a < MEMORY_SIZE) (I_accesses s) =
        (if \<not> unat (I s) + (OP_X (fetch s) + 1) \<le> MEMORY_SIZE
         then Some (max (unat (I s)) MEMORY_SIZE) else None)"
      using F65 find_oob_upt [of MEMORY_SIZE "unat (I s)" 0 "OP_X (fetch s) + 1"]
      by (simp add: I_accesses_def Let_def)
    have exd: "executeCycle rnd s = load_loop [0..<OP_X (fetch s) + 1] ?t"
      using F65 by (simp add: ex execute_def exec_F_def Let_def)
    show ?thesis
    proof (cases "unat (I s) + (OP_X (fetch s) + 1) \<le> MEMORY_SIZE")
      case True
      then show ?thesis
        using load_loop_upt [of ?t "OP_X (fetch s) + 1" 0] by (simp add: acc exd)
    next
      case False
      then show ?thesis
        using load_loop_oob [of 0 "OP_X (fetch s) + 1" ?t] by (simp add: acc exd)
    qed
  qed
qed

text \<open>
  Witness for C2: F255 with \<open>I = 0x300\<close> completes; D003 with \<open>I = 0xFFE\<close> reads its third
  sprite row at 0x1000.
\<close>

theorem I_access_unchecked_witness:
  "(\<exists>s'. executeCycle 0 store_F255 = Returned s') \<and>
   executeCycle 0 draw_D003_at_FFE = Undefined MemoryArr 0x1000"
proof -
  have f: "fetch store_F255 = 0xF255" "fetch draw_D003_at_FFE = 0xD003"
    by (simp_all add: fetch_def store_F255_def draw_D003_at_FFE_def zero_state_def)
  have p: "unat (pc store_F255) + 1 < MEMORY_SIZE" "unat (pc draw_D003_at_FFE) + 1 < MEMORY_SIZE"
    by (simp_all add: store_F255_def draw_D003_at_FFE_def zero_state_def MEMORY_SIZE_def)
  have o1: "fetch store_F255 AND 0xF000 = 0xD000 \<or>
         fetch store_F255 AND 0xF000 = 0xF000 \<and>
           (fetch store_F255 AND 0x00FF = 0x33 \<or> fetch store_F255 AND 0x00FF = 0x55 \<or>
            fetch store_F255 AND 0x00FF = 0x65)"
    by (simp add: f)
  have o2: "fetch draw_D003_at_FFE AND 0xF000 = 0xD000 \<or>
         fetch draw_D003_at_FFE AND 0xF000 = 0xF000 \<and>
           (fetch draw_D003_at_FFE AND 0x00FF = 0x33 \<or> fetch draw_D003_at_FFE AND 0x00FF = 0x55 \<or>
            fetch draw_D003_at_FFE AND 0x00FF = 0x65)"
    by (simp add: f)
  have a1: "I_accesses store_F255 = [0x300, 0x301, 0x302]"
    by (simp add: I_accesses_def f Let_def OP_X_def upt_conv_Cons)
       (simp add: store_F255_def zero_state_def)
  have a2: "I_accesses draw_D003_at_FFE = [0xFFE, 0xFFF, 0x1000]"
    by (simp add: I_accesses_def f Let_def OP_N_def OP_Y_def upt_conv_Cons)
       (simp add: draw_D003_at_FFE_def zero_state_def)
  have "\<exists>s'. executeCycle 0 store_F255 = Returned s'"
    using I_access_unchecked [OF p(1) o1, of 0] by (simp add: a1 MEMORY_SIZE_def)
  moreover have "executeCycle 0 draw_D003_at_FFE = Undefined MemoryArr 0x1000"
    using I_access_unchecked [OF p(2) o2, of 0] by (simp add: a2 MEMORY_SIZE_def)
  ultimately show ?thesis by blast
qed

section \<open>Stack discipline\<close>

text \<open>
  Claim C3: from an empty stack of capacity 16, sixteen nested 2NNN calls followed by
  sixteen 00EE returns restore the original PC sequence; a 17th call while the stack is
  full reports StackOverflow; 00EE while the stack is empty reports StackUnderflow.

  Counterexample for C3: the code compares \<open>sp\<close> with nothing.  A call with \<open>sp = 16\<close>
  stores the return address in \<open>stack[16]\<close>, and a return with \<open>sp = 0\<close> decrements \<open>sp\<close>
  below zero (it wraps) and reads \<open>stack\<close> there; both are outside the sixteen entries.
\<close>

theorem call_2300_full_ret_00EE_empty:
  "executeCycle 0 call_2300_full = Undefined StackArr 16 \<and>
   executeCycle 0 ret_00EE_empty = Undefined StackArr 65535"
  by (simp add: executeCycle_def execute_def exec_0_def exec_2_def fetch_def
      call_2300_full_def ret_00EE_empty_def with_rom_def zero_state_def
      MEMORY_SIZE_def STACK_SIZE_def Let_def unat_u16_minus_1)

text \<open>
  Claim C3 as amended: from a state with \<open>sp = 0\<close>, when the first sixteen instructions
  executed are 2NNN calls and the next sixteen are 00EE returns (each fetched from inside
  the memory), all 32 steps return, and the return that undoes the call made in the state
  after \<open>k\<close> steps leaves \<open>pc\<close> at the address following that call and \<open>sp\<close> as it was
  there.  The code has no StackOverflow or StackUnderflow report: a 2NNN call with
  \<open>sp = 16\<close> writes \<open>stack[16]\<close>, and 00EE with \<open>sp = 0\<close> reads \<open>stack\<close> at an index of 16 or
  more, both outside the array (undefined behaviour in C++).
\<close>

theorem stack_discipline_unchecked:
  assumes "sp s = 0" and "length rs = 32"
    and "\<forall>k<16. \<forall>t. steps (take k rs) s = Some t \<longrightarrow>
           unat (pc t) + 1 < MEMORY_SIZE \<and> fetch t AND 0xF000 = 0x2000"
    and "\<forall>k. 16 \<le> k \<and> k < 32 \<longrightarrow>
           (\<forall>t. steps (take k rs) s = Some t \<longrightarrow>
              unat (pc t) + 1 < MEMORY_SIZE \<and> fetch t = 0x00EE)"
    and "unat (pc c) + 1 < MEMORY_SIZE" and "fetch c AND 0xF000 = 0x2000" and "sp c = 16"
    and "unat (pc e) + 1 < MEMORY_SIZE" and "fetch e = 0x00EE" and "sp e = 0"
  shows "(\<forall>k<16. \<exists>t u. steps (take k rs) s = Some t \<and> steps (take (32 - k) rs) s = Some u \<and>
                   pc u = pc t + 2 \<and> sp u = sp t) \<and>
         executeCycle r c = Undefined StackArr 16 \<and>
         (\<exists>i\<ge>16. executeCycle r e = Undefined StackArr i)"
proof -
  have "executeCycle r c = Undefined StackArr 16"
    using call_step [OF assms(5,6), of r] assms(7) by simp
  moreover have "executeCycle r e = Undefined StackArr 65535"
    using ret_step [OF assms(8,9), of r] assms(10) by (simp add: unat_u16_minus_1)
  then have "\<exists>i\<ge>16. executeCycle r e = Undefined StackArr i" by simp
  ultimately show ?thesis using calls_then_returns [OF assms(1-4)] by blast
qed

text \<open>
  Witness for C3: the sixteen nested subroutines of \<open>call_chain\<close> end at 0x202 with
  \<open>sp = 0\<close>; 2300 with \<open>sp = 16\<close>; 00EE with \<open>sp = 0\<close>.
\<close>

theorem stack_discipline_unchecked_witness:
  "(\<exists>u. steps (replicate 32 0) call_chain = Some u \<and> pc u = 0x202 \<and> sp u = 0) \<and>
   executeCycle 0 call_2300_full = Undefined StackArr 16 \<and>
   (\<exists>i\<ge>16. executeCycle 0 ret_00EE_empty = Undefined StackArr i)"
proof -
  let ?Ps = "replicate 16 is_call @ replicate 16 is_ret"
  let ?rs = "replicate 32 (0::nat)"
  have s0: "sp call_chain = 0" "pc call_chain = 0x200"
    by (simp_all add: call_chain_def with_rom_def zero_state_def)
  have len: "length ?rs = 32" by simp
  have calls: "\<forall>k<16. \<forall>t. steps (take k ?rs) call_chain = Some t \<longrightarrow>
           unat (pc t) + 1 < MEMORY_SIZE \<and> fetch t AND 0xF000 = 0x2000"
  proof (intro allI impI)
    fix k t assume k: "k < (16::nat)" and t: "steps (take k ?rs) call_chain = Some t"
    from follows_steps [OF chain_follows _ _ t] k
    show "unat (pc t) + 1 < MEMORY_SIZE \<and> fetch t AND 0xF000 = 0x2000"
      by (simp add: nth_append is_call_def)
  qed
  have rets: "\<forall>k. 16 \<le> k \<and> k < 32 \<longrightarrow>
           (\<forall>t. steps (take k ?rs) call_chain = Some t \<longrightarrow>
              unat (pc t) + 1 < MEMORY_SIZE \<and> fetch t = 0x00EE)"
  proof (intro allI impI)
    fix k t assume k: "16 \<le> k \<and> k < (32::nat)" and t: "steps (take k ?rs) call_chain = Some t"
    from k have "k - 16 < 16" by arith
    with follows_steps [OF chain_follows _ _ t] k
    show "unat (pc t) + 1 < MEMORY_SIZE \<and> fetch t = 0x00EE"
      by (simp add: nth_append is_ret_def)
  qed
  have c: "unat (pc call_2300_full) + 1 < MEMORY_SIZE" "fetch call_2300_full AND 0xF000 = 0x2000"
    "sp call_2300_full = 16"
    by (simp_all add: fetch_def call_2300_full_def with_rom_def zero_state_def MEMORY_SIZE_def)
  have e: "unat (pc ret_00EE_empty) + 1 < MEMORY_SIZE" "fetch ret_00EE_empty = 0x00EE"
    "sp ret_00EE_empty = 0"
    by (simp_all add: fetch_def ret_00EE_empty_def with_rom_def zero_state_def MEMORY_SIZE_def)
  note th = stack_discipline_unchecked [OF s0(1) len calls rets c e, of 0]
  from th have "\<forall>k<16. \<exists>t u. steps (take k ?rs) call_chain = Some t \<and>
      steps (take (32 - k) ?rs) call_chain = Some u \<and> pc u = pc t + 2 \<and> sp u = sp t"
    by (rule conjunct1)
  from this [THEN spec, of 0]
  have "\<exists>u. steps ?rs call_chain = Some u \<and> pc u = 0x202 \<and> sp u = 0"
    by (simp add: s0)
  with th show ?thesis by blast
qed

section \<open>The right shift 8XY6\<close>

text \<open>
  What 8XY6 does: VF is the low bit of the old \<open>V[X]\<close>, and \<open>V[X]\<close> (when X is not 0xF) is
  the old \<open>V[Y]\<close> shifted right by one.
\<close>

lemma shift_right_8XY6:
  assumes "unat (pc s) + 1 < MEMORY_SIZE"
    and "fetch s AND 0xF000 = 0x8000" and "fetch s AND 0x000F = 0x6"
  shows "\<exists>V'. executeCycle rnd s =
            Returned (s\<lparr>breakIPF := False, opcode := fetch s, pc := pc s + 2, V := V'\<rparr>) \<and>
          V' 0xF = V s (OP_X (fetch s)) AND 1 \<and>
          (OP_X (fetch s) \<noteq> 0xF \<longrightarrow> V' (OP_X (fetch s)) = drop_bit 1 (V s (OP_Y (fetch s))))"
  using assms
  by (intro exI [of _ "V (exec_8 (s\<lparr>breakIPF := False, opcode := fetch s, pc := pc s + 2\<rparr>))"])
     (simp add: executeCycle_fetched execute_def exec_8_def Let_def)

text \<open>
  Claim C4: for every state and every opcode of the form 8XY6, after execution VF is the
  low bit of the value \<open>V[Y]\<close> had before, and \<open>V[X]\<close> is that value shifted right by one.

  The code takes the flag from \<open>V[X]\<close>, before it copies \<open>V[Y]\<close> into it.  With \<open>V[0] = 1\<close>
  and \<open>V[1] = 2\<close> the opcode 8016 leaves \<open>V[0] = 1\<close> and \<open>VF = 1\<close>, while the low bit of
  \<open>V[1]\<close> is 0.
\<close>

theorem shr_8016_flag_from_VX:
  "executeCycle 0 shr_8016 =
     Returned (shr_8016\<lparr>opcode := 0x8016, pc := 0x202, V := (V shr_8016)(0 := 1, 0xF := 1)\<rparr>)
   \<and> V shr_8016 (OP_Y 0x8016) AND 1 = 0"
  by (simp add: executeCycle_def execute_def exec_8_def fetch_def shr_8016_def
      zero_state_def MEMORY_SIZE_def OP_X_def OP_Y_def Let_def)

section \<open>Sprites at the edge of the screen\<close>

text \<open>
  Claim C5: in DXYN, a sprite row whose target row \<open>y + row\<close> is exactly 32 is skipped
  (not drawn wrapped to row 0), and a sprite bit whose target column \<open>x + bit\<close> is exactly
  64 is skipped (not drawn wrapped to column 0); only coordinates strictly inside the
  64x32 grid are toggled.

  Counterexample for C5: the tests of the code are \<open>y + height > 32\<close> and \<open>x + bit > 64\<close>.
  A sprite of two rows 0xC0 drawn at \<open>x = 63\<close>, \<open>y = 31\<close> lights four pixels: (63, 31),
  and, wrapped, (0, 31) for \<open>x + bit = 64\<close>, (63, 0) for \<open>y + row = 32\<close>, and (0, 0) for
  both.
\<close>

theorem draw_D012_corner_wraps:
  "executeCycle 0 draw_D012_corner =
     Returned (draw_D012_corner\<lparr>opcode := 0xD012, pc := 0x202,
        V := (V draw_D012_corner)(0xF := 0),
        gfx := (gfx draw_D012_corner)(2047 := 1, 1984 := 1, 63 := 1, 0 := 1),
        breakIPF := True, draw := True\<rparr>)"
proof -
  have f: "fetch draw_D012_corner = 0xD012"
    by (simp add: fetch_def draw_D012_corner_def zero_state_def)
  have d: "OP_X 0xD012 = 0" "OP_Y 0xD012 = 1" "OP_N 0xD012 = 2"
    by (simp_all add: OP_X_def OP_Y_def OP_N_def)
  have v: "V draw_D012_corner 0 = 63" "V draw_D012_corner 1 = 31" "pc draw_D012_corner = 0x200"
    by (simp_all add: draw_D012_corner_def zero_state_def)
  have h1: "unat (pc draw_D012_corner) + 1 < MEMORY_SIZE" by (simp add: v MEMORY_SIZE_def)
  have h2: "fetch draw_D012_corner AND 0xF000 = 0xD000" by (simp add: f)
  have r: "draw_rows 63 31 [0, 1]
      (draw_D012_corner\<lparr>breakIPF := False, opcode := 0xD012, pc := 0x202,
         V := (V draw_D012_corner)(0xF := 0)\<rparr>) =
    Returned (draw_D012_corner\<lparr>breakIPF := False, opcode := 0xD012, pc := 0x202,
        V := (V draw_D012_corner)(0xF := 0),
        gfx := (gfx draw_D012_corner)(2047 := 1, 1984 := 1, 63 := 1, 0 := 1)\<rparr>)"
    by (simp add: draw_bit_def draw_D012_corner_def zero_state_def MEMORY_SIZE_def Let_def upt_0_8)
  have "executeCycle 0 draw_D012_corner =
    (case draw_rows 63 31 [0, 1]
            (draw_D012_corner\<lparr>breakIPF := False, opcode := 0xD012, pc := 0x202,
               V := (V draw_D012_corner)(0xF := 0)\<rparr>) of
       Returned s1 \<Rightarrow> Returned (s1\<lparr>breakIPF := True, draw := True\<rparr>)
     | Undefined a i \<Rightarrow> Undefined a i)"
    unfolding draw_step [OF h1 h2] f d v upt_0_2 by (simp del: draw_rows.simps)
  then show ?thesis unfolding r by simp
qed

text \<open>
  Claim C5 as amended: in DXYN, with \<open>x = V[X] mod 64\<close> and \<open>y = V[Y] mod 32\<close>, a sprite row
  is skipped when \<open>y + row > 32\<close> and a sprite bit when \<open>x + bit > 64\<close>; a row with
  \<open>y + row = 32\<close> is drawn wrapped to row 0 and a bit with \<open>x + bit = 64\<close> wrapped to column
  0.  The pixels toggled are exactly those at column \<open>(x + bit) mod 64\<close> of row
  \<open>(y + row) mod 32\<close> for the set bits of the sprite with \<open>y + row \<le> 32\<close> and
  \<open>x + bit \<le> 64\<close>; every other pixel keeps its value.  (The sprite rows that are read lie
  inside the memory.)
\<close>

theorem draw_toggles:
  assumes "unat (pc s) + 1 < MEMORY_SIZE" and "fetch s AND 0xF000 = 0xD000"
    and "\<forall>h<OP_N (fetch s).
           unat (V s (OP_Y (fetch s))) mod 32 + h \<le> 32 \<longrightarrow> unat (I s) + h < MEMORY_SIZE"
  shows "\<exists>s'. executeCycle rnd s = Returned s' \<and>
    (let x = unat (V s (OP_X (fetch s))) mod 64; y = unat (V s (OP_Y (fetch s))) mod 32 in
     \<forall>q. gfx s' q =
       (if \<exists>h<OP_N (fetch s). \<exists>b<8. y + h \<le> 32 \<and> x + b \<le> 64 \<and> sprite_bit s h b \<and>
                q = pixel_index ((x + b) mod 64) ((y + h) mod 32)
        then gfx s q XOR 1 else gfx s q))"
proof -
  let ?x = "unat (V s (OP_X (fetch s))) mod 64"
  let ?y = "unat (V s (OP_Y (fetch s))) mod 32"
  let ?n = "OP_N (fetch s)"
  let ?t = "s\<lparr>breakIPF := False, opcode := fetch s, pc := pc s + 2, V := (V s)(0xF := 0)\<rparr>"
  have a: "distinct [0..<?n]" by simp
  have b: "\<forall>h\<in>set [0..<?n]. h < 32" using OP_N_less [of "fetch s"] by auto
  have c: "\<forall>h\<in>set [0..<?n]. ?y + h \<le> 32 \<longrightarrow> unat (I ?t) + h < MEMORY_SIZE"
    using assms(3) by simp
  from draw_rows_gfx [OF a b c, of ?x]
  obtain s1 where s1: "draw_rows ?x ?y [0..<?n] ?t = Returned s1"
    "\<forall>q. gfx s1 q =
        (if \<exists>h\<in>set [0..<?n]. \<exists>b<8. ?y + h \<le> 32 \<and> ?x + b \<le> 64 \<and> sprite_bit ?t h b \<and>
                          q = pixel_index ((?x + b) mod 64) ((?y + h) mod 32)
         then gfx ?t q XOR 1 else gfx ?t q)"
    by blast
  have sb: "sprite_bit ?t = sprite_bit s" by (simp add: sprite_bit_def fun_eq_iff)
  have bex: "(\<exists>h\<in>set [0..<?n]. P h) = (\<exists>h<?n. P h)" for P by auto
  have "executeCycle rnd s = Returned (s1\<lparr>breakIPF := True, draw := True\<rparr>)"
    unfolding draw_step [OF assms(1,2)] s1(1) by simp
  moreover have gt: "gfx ?t = gfx s"
    and g1: "gfx (s1\<lparr>breakIPF := True, draw := True\<rparr>) = gfx s1" by simp_all
  have "\<forall>q. gfx (s1\<lparr>breakIPF := True, draw := True\<rparr>) q =
       (if \<exists>h<?n. \<exists>b<8. ?y + h \<le> 32 \<and> ?x + b \<le> 64 \<and> sprite_bit s h b \<and>
                q = pixel_index ((?x + b) mod 64) ((?y + h) mod 32)
        then gfx s q XOR 1 else gfx s q)"
    using s1(2) unfolding sb bex gt g1 .
  ultimately show ?thesis unfolding Let_def by blast
qed

text \<open>
  Witness for C5: the sprite of two rows 0xC0 at \<open>x = 63\<close>, \<open>y = 31\<close> toggles the pixels
  2047, 1984, 63 and 0.
\<close>

theorem draw_toggles_witness:
  "\<exists>s'. executeCycle 0 draw_D012_corner = Returned s' \<and>
     gfx s' 2047 = 1 \<and> gfx s' 1984 = 1 \<and> gfx s' 63 = 1 \<and> gfx s' 0 = 1"
proof -
  have f: "fetch draw_D012_corner = 0xD012"
    by (simp add: fetch_def draw_D012_corner_def zero_state_def)
  have d: "OP_X 0xD012 = 0" "OP_Y 0xD012 = 1" "OP_N 0xD012 = 2"
    by (simp_all add: OP_X_def OP_Y_def OP_N_def)
  have v: "V draw_D012_corner 0 = 63" "V draw_D012_corner 1 = 31"
    "I draw_D012_corner = 0x300" "gfx draw_D012_corner q = 0" for q
    by (simp_all add: draw_D012_corner_def zero_state_def)
  have h1: "unat (pc draw_D012_corner) + 1 < MEMORY_SIZE"
    by (simp add: draw_D012_corner_def zero_state_def MEMORY_SIZE_def)
  have h2: "fetch draw_D012_corner AND 0xF000 = 0xD000" by (simp add: f)
  have h3: "\<forall>h<OP_N (fetch draw_D012_corner).
      unat (V draw_D012_corner (OP_Y (fetch draw_D012_corner))) mod 32 + h \<le> 32 \<longrightarrow>
      unat (I draw_D012_corner) + h < MEMORY_SIZE"
    unfolding f d v by (simp add: MEMORY_SIZE_def)
  have sp: "sprite_bit draw_D012_corner 0 0" "sprite_bit draw_D012_corner 0 1"
    "sprite_bit draw_D012_corner 1 0" "sprite_bit draw_D012_corner 1 1"
    by (simp_all add: sprite_bit_def bit_set_def draw_D012_corner_def zero_state_def)
  have xy: "unat (V draw_D012_corner (OP_X (fetch draw_D012_corner))) mod 64 = 63"
    "unat (V draw_D012_corner (OP_Y (fetch draw_D012_corner))) mod 32 = 31"
    "OP_N (fetch draw_D012_corner) = 2"
    unfolding f d v by simp_all
  from draw_toggles [OF h1 h2 h3, of 0]
  obtain s' where s': "executeCycle 0 draw_D012_corner = Returned s'"
    and g: "\<forall>q. gfx s' q =
       (if \<exists>h<2. \<exists>b<8. 31 + h \<le> 32 \<and> 63 + b \<le> 64 \<and> sprite_bit draw_D012_corner h b \<and>
                q = pixel_index ((63 + b) mod 64) ((31 + h) mod 32)
        then gfx draw_D012_corner q XOR 1 else gfx draw_D012_corner q)"
    unfolding Let_def xy by blast
  have hit: "\<exists>h<2. \<exists>b<8. 31 + h \<le> 32 \<and> 63 + b \<le> 64 \<and> sprite_bit draw_D012_corner h b \<and>
                pixel_index ((63 + b') mod 64) ((31 + h') mod 32) =
                  pixel_index ((63 + b) mod 64) ((31 + h) mod 32)"
    if "h' < 2" "b' < 2" "sprite_bit draw_D012_corner h' b'" for h' b'
    by (intro exI [of _ h'] exI [of _ b'] conjI) (use that in simp_all)
  have "gfx s' (pixel_index ((63 + b') mod 64) ((31 + h') mod 32)) = 1"
    if "h' < 2" "b' < 2" "sprite_bit draw_D012_corner h' b'" for h' b'
    using g [rule_format, of "pixel_index ((63 + b') mod 64) ((31 + h') mod 32)"] hit [OF that]
    by (simp only: if_True v) simp
  from this [of 0 0] this [of 0 1] this [of 1 0] this [of 1 1] sp
  have "gfx s' 2047 = 1" "gfx s' 1984 = 1" "gfx s' 63 = 1" "gfx s' 0 = 1"
    by (simp_all add: pixel_index_def)
  with s' show ?thesis by blast
qed

section \<open>The initializer\<close>

text \<open>
  What \<open>init\<close> establishes: \<open>pc\<close>, \<open>sp\<close> and \<open>I\<close>, the font at 0 to 79, zero in the rest of
  the memory, the stack, the framebuffer and both key matrices, and the three flags.  The
  registers and the timers are left as they were.
\<close>

lemma load_font_upt:
  "load_font [0..<n] m = (\<lambda>a. if a < n then chip8_fontset ! a else m a)"
proof -
  have "load_font [k..<n] m = (\<lambda>a. if k \<le> a \<and> a < n then chip8_fontset ! a else m a)" for k
  proof (induction "n - k" arbitrary: k m)
    case 0
    then show ?case by (auto simp add: fun_eq_iff)
  next
    case (Suc d)
    then have "k < n" and d: "d = n - Suc k" by simp_all
    then have u: "[k..<n] = k # [Suc k..<n]" by (simp add: upt_conv_Cons)
    have "load_font [k..<n] m = load_font [Suc k..<n] (m(k := chip8_fontset ! k))"
      by (simp add: u)
    also have "\<dots> = (\<lambda>a. if Suc k \<le> a \<and> a < n then chip8_fontset ! a
                           else (m(k := chip8_fontset ! k)) a)"
      by (rule Suc.hyps(1) [OF d])
    also have "\<dots> = (\<lambda>a. if k \<le> a \<and> a < n then chip8_fontset ! a else m a)"
      using \<open>k < n\<close> by (auto simp add: fun_eq_iff)
    finally show ?case .
  qed
  from this [of 0] show ?thesis by simp
qed

lemma init_resets:
  "pc (init s) = 0x200 \<and> sp (init s) = 0 \<and> I (init s) = 0 \<and>
   (\<forall>a<80. memory (init s) a = chip8_fontset ! a) \<and>
   (\<forall>a. 80 \<le> a \<and> a < 4096 \<longrightarrow> memory (init s) a = 0) \<and>
   (\<forall>i<16. stack (init s) i = 0) \<and> (\<forall>i<2048. gfx (init s) i = 0) \<and>
   (\<forall>i<16. key (init s) i = 0 \<and> prevKeys (init s) i = 0) \<and>
   \<not> breakIPF (init s) \<and> \<not> draw (init s) \<and> running (init s) \<and>
   V (init s) = V s \<and> delay_timer (init s) = delay_timer s \<and>
   sound_timer (init s) = sound_timer s"
  by (simp add: init_def Let_def load_font_upt memset0_def MEMORY_SIZE_def STACK_SIZE_def
      GFX_SIZE_def KEY_SIZE_def del: upt_rec_numeral)

text \<open>
  Claim C6: after the initializer runs, \<open>pc\<close> is 0x200, the font table is at addresses 0 to
  79, all other memory, the stack, the framebuffer and both key matrices are zero, and the
  delay timer, the sound timer and the redraw and pause flags are cleared.

  \<open>init\<close> assigns neither timer.  Called on a machine whose delay timer is 7 and whose
  sound timer is 9, it leaves them at 7 and 9.
\<close>

theorem init_keeps_timers:
  "delay_timer (init timers_7_9) = 7 \<and> sound_timer (init timers_7_9) = 9"
  by (simp add: init_def timers_7_9_def zero_state_def Let_def)

section \<open>The blocking key wait FX0A\<close>

text \<open>The scan returns the first listed key that was down in the snapshot and is up now.\<close>

lemma key_scan_None:
  "key_scan xs s = None \<longleftrightarrow> (\<forall>i \<in> set xs. \<not> (prevKeys s i = 1 \<and> key s i = 0))"
  by (induction xs) auto

lemma key_scan_Some_upt:
  "key_scan [a..<b] s = Some i \<Longrightarrow>
     a \<le> i \<and> i < b \<and> prevKeys s i = 1 \<and> key s i = 0 \<and>
     (\<forall>j. a \<le> j \<and> j < i \<longrightarrow> \<not> (prevKeys s j = 1 \<and> key s j = 0))"
proof (induction "b - a" arbitrary: a)
  case 0
  then show ?case by simp
next
  case (Suc n)
  then have ab: "a < b" by simp
  then have u: "[a..<b] = a # [Suc a..<b]" by (simp add: upt_conv_Cons)
  show ?case
  proof (cases "prevKeys s a = 1 \<and> key s a = 0")
    case True
    with Suc.prems u ab show ?thesis by auto
  next
    case False
    with Suc.prems u have "key_scan [Suc a..<b] s = Some i" by auto
    moreover have "n = b - Suc a" using Suc.hyps(2) by simp
    ultimately have ih: "Suc a \<le> i \<and> i < b \<and> prevKeys s i = 1 \<and> key s i = 0 \<and>
        (\<forall>j. Suc a \<le> j \<and> j < i \<longrightarrow> \<not> (prevKeys s j = 1 \<and> key s j = 0))"
      using Suc.hyps(1) by blast
    have "\<not> (prevKeys s j = 1 \<and> key s j = 0)" if "a \<le> j" "j < i" for j
    proof (cases "j = a")
      case True
      with False show ?thesis by simp
    next
      case False
      with that ih show ?thesis by (simp add: Suc_le_eq)
    qed
    with ih show ?thesis by auto
  qed
qed

lemma key_scan_cong:
  "prevKeys t = prevKeys s \<Longrightarrow> key t = key s \<Longrightarrow> key_scan xs t = key_scan xs s"
  by (induction xs) auto

lemma key_scan_fetched [simp]:
  "key_scan xs (s\<lparr>breakIPF := b, opcode := opc, pc := p\<rparr>) = key_scan xs s"
  "key_scan xs (s\<lparr>breakIPF := b, opcode := opc\<rparr>) = key_scan xs s"
  by (rule key_scan_cong; simp)+

lemma key_wait_step:
  assumes "unat (pc s) + 1 < MEMORY_SIZE"
    and "fetch s AND 0xF000 = 0xF000"
    and "fetch s AND 0x00FF = 0x0A"
  shows "executeCycle rnd s =
    (case key_scan [0..<16] s of
       None \<Rightarrow> Returned (s\<lparr>breakIPF := False, opcode := fetch s\<rparr>)
     | Some i \<Rightarrow> Returned (s\<lparr>breakIPF := True, opcode := fetch s, pc := pc s + 2,
                            V := (V s)(OP_X (fetch s) := of_nat i)\<rparr>))"
proof -
  have "executeCycle rnd s =
      Returned (exec_F0A (s\<lparr>breakIPF := False, opcode := fetch s, pc := pc s + 2\<rparr>))"
    using assms by (simp add: executeCycle_fetched execute_def exec_F_def Let_def)
  then show ?thesis
    by (cases "key_scan [0..<16] s") (simp_all add: exec_F0A_def del: upt_rec_numeral)
qed

lemma key_wait_repeats:
  assumes "unat (pc s) + 1 < MEMORY_SIZE"
    and "fetch s AND 0xF000 = 0xF000"
    and "fetch s AND 0x00FF = 0x0A"
    and "key_scan [0..<16] s = None"
  shows "rs \<noteq> [] \<Longrightarrow> steps rs s = Some (s\<lparr>breakIPF := False, opcode := fetch s\<rparr>)"
proof (induction rs arbitrary: )
  case Nil
  then show ?case by simp
next
  case (Cons r rs)
  let ?t = "s\<lparr>breakIPF := False, opcode := fetch s\<rparr>"
  have st: "executeCycle r' s = Returned ?t" for r'
    using key_wait_step [OF assms(1-3)] assms(4) by simp
  have ft: "fetch ?t = fetch s" by (simp add: fetch_def)
  have kt: "key_scan xs ?t = key_scan xs s" for xs by simp
  have tt: "executeCycle r' ?t = Returned ?t" for r'
    using key_wait_step [of ?t r'] assms by (simp add: ft kt)
  have "steps rs' ?t = Some ?t" for rs'
    by (induction rs') (simp_all add: tt)
  then show ?case by (simp add: st)
qed

text \<open>
  Claim C7: in every state in which no key has gone from pressed in the previous-key
  snapshot to released in the live key matrix, executing FX0A leaves \<open>pc\<close> unchanged and
  \<open>V[X]\<close> unmodified; once there is such a key, executing FX0A sets \<open>V[X]\<close> to that key's
  index, sets the pause flag, and the machine advances past the instruction exactly once.

  A key counts as pressed in the snapshot when \<open>prevKeys[i] == 1\<close> and as released when
  \<open>key[i] == 0\<close>.  Without such a key the step changes nothing but \<open>opcode\<close> and the pause
  flag (reset), and so does any number of further steps.  With one, \<open>V[X]\<close> is the lowest
  such index, the pause flag \<open>breakIPF\<close> is set and \<open>pc\<close> is 2 further.
\<close>

theorem key_wait:
  assumes "unat (pc s) + 1 < MEMORY_SIZE"
    and "fetch s AND 0xF000 = 0xF000"
    and "fetch s AND 0x00FF = 0x0A"
  shows "if \<forall>i<16. \<not> (prevKeys s i = 1 \<and> key s i = 0)
    then executeCycle rnd s = Returned (s\<lparr>breakIPF := False, opcode := fetch s\<rparr>) \<and>
         (\<forall>rs. rs \<noteq> [] \<longrightarrow> steps rs s = Some (s\<lparr>breakIPF := False, opcode := fetch s\<rparr>))
    else \<exists>i<16. prevKeys s i = 1 \<and> key s i = 0 \<and>
           (\<forall>j<i. \<not> (prevKeys s j = 1 \<and> key s j = 0)) \<and>
           executeCycle rnd s =
             Returned (s\<lparr>breakIPF := True, opcode := fetch s, pc := pc s + 2,
                         V := (V s)(OP_X (fetch s) := of_nat i)\<rparr>)"
proof (cases "key_scan [0..<16] s")
  case None
  then have no: "\<forall>i<16. \<not> (prevKeys s i = 1 \<and> key s i = 0)"
    by (simp add: key_scan_None)
  moreover have "executeCycle rnd s = Returned (s\<lparr>breakIPF := False, opcode := fetch s\<rparr>)"
    using key_wait_step [OF assms, of rnd] None by simp
  moreover have "\<forall>rs. rs \<noteq> [] \<longrightarrow> steps rs s = Some (s\<lparr>breakIPF := False, opcode := fetch s\<rparr>)"
    using key_wait_repeats [OF assms None] by blast
  ultimately show ?thesis by simp
next
  case (Some i)
  from key_scan_Some_upt [OF Some]
  have i: "i < 16" "prevKeys s i = 1" "key s i = 0"
    "\<forall>j<i. \<not> (prevKeys s j = 1 \<and> key s j = 0)" by auto
  have "executeCycle rnd s =
      Returned (s\<lparr>breakIPF := True, opcode := fetch s, pc := pc s + 2,
                  V := (V s)(OP_X (fetch s) := of_nat i)\<rparr>)"
    using key_wait_step [OF assms, of rnd] Some by simp
  with i show ?thesis by auto
qed

text \<open>
  Witness for C7: F30A while key 5 is still held (nothing changes, however often the step
  is repeated), and F30A after keys 5 and 9 were released (\<open>V[3] = 5\<close>).
\<close>

theorem key_wait_witness:
  "executeCycle 0 wait_idle = Returned (wait_idle\<lparr>opcode := 0xF30A\<rparr>) \<and>
   steps [0, 0, 0] wait_idle = Some (wait_idle\<lparr>opcode := 0xF30A\<rparr>) \<and>
   executeCycle 0 wait_released =
     Returned (wait_released\<lparr>breakIPF := True, opcode := 0xF30A, pc := 0x202,
                 V := (V wait_released)(3 := 5)\<rparr>)"
proof -
  have f: "fetch wait_idle = 0xF30A" "fetch wait_released = 0xF30A"
    by (simp_all add: fetch_def wait_idle_def wait_released_def zero_state_def)
  have x: "OP_X 0xF30A = 3" by (simp add: OP_X_def)
  have i1: "unat (pc wait_idle) + 1 < MEMORY_SIZE"
    and r1: "unat (pc wait_released) + 1 < MEMORY_SIZE"
    by (simp_all add: wait_idle_def wait_released_def zero_state_def MEMORY_SIZE_def)
  have i2: "fetch wait_idle AND 0xF000 = 0xF000" and i3: "fetch wait_idle AND 0x00FF = 0x0A"
    and r2: "fetch wait_released AND 0xF000 = 0xF000"
    and r3: "fetch wait_released AND 0x00FF = 0x0A"
    by (simp_all add: f)
  have idle: "\<forall>i<16. \<not> (prevKeys wait_idle i = 1 \<and> key wait_idle i = 0)"
    by (simp add: wait_idle_def zero_state_def)
  have b: "breakIPF wait_idle = False" by (simp add: wait_idle_def zero_state_def)
  have t: "wait_idle\<lparr>breakIPF := False, opcode := 0xF30A\<rparr> = wait_idle\<lparr>opcode := 0xF30A\<rparr>"
    by (simp add: b)
  have "executeCycle 0 wait_idle = Returned (wait_idle\<lparr>opcode := 0xF30A\<rparr>) \<and>
      (\<forall>rs. rs \<noteq> [] \<longrightarrow> steps rs wait_idle = Some (wait_idle\<lparr>opcode := 0xF30A\<rparr>))"
    using key_wait [OF i1 i2 i3, of 0] idle unfolding f t by simp
  then have a: "executeCycle 0 wait_idle = Returned (wait_idle\<lparr>opcode := 0xF30A\<rparr>) \<and>
      steps [0, 0, 0] wait_idle = Some (wait_idle\<lparr>opcode := 0xF30A\<rparr>)"
    by blast
  have rel: "\<not> (\<forall>i<16. \<not> (prevKeys wait_released i = 1 \<and> key wait_released i = 0))"
    by (auto simp add: wait_released_def zero_state_def intro!: exI [of _ 5])
  from key_wait [OF r1 r2 r3, of 0] rel
  obtain i where i: "i < 16" "prevKeys wait_released i = 1"
    "\<forall>j<i. \<not> (prevKeys wait_released j = 1 \<and> key wait_released j = 0)"
    "executeCycle 0 wait_released =
       Returned (wait_released\<lparr>breakIPF := True, opcode := fetch wait_released,
          pc := pc wait_released + 2,
          V := (V wait_released)(OP_X (fetch wait_released) := of_nat i)\<rparr>)"
    by (auto split: if_splits)
  from i(2) have "i = 5 \<or> i = 9"
    by (simp add: wait_released_def zero_state_def split: if_splits)
  moreover have "i \<noteq> 9"
  proof
    assume "i = 9"
    with i(3) have "\<not> (prevKeys wait_released 5 = 1 \<and> key wait_released 5 = 0)" by simp
    then show False by (simp add: wait_released_def zero_state_def)
  qed
  ultimately have "i = 5" by simp
  moreover have "pc wait_released = 0x200" by (simp add: wait_released_def zero_state_def)
  ultimately have "executeCycle 0 wait_released =
     Returned (wait_released\<lparr>breakIPF := True, opcode := 0xF30A, pc := 0x202,
                 V := (V wait_released)(3 := 5)\<rparr>)"
    using i(4) by (simp add: f x)
  with a show ?thesis by blast
qed

section \<open>The 8-bit arithmetic opcodes 7XNN, 8XY4, 8XY5 and 8XY7\<close>

lemma u8_sub_uint: "uint ((a::u8) - b) = (uint a - uint b) mod 256"
  by (simp add: uint_word_ariths)

lemma u8_add_unat: "unat ((a::u8) + b) = (unat a + unat b) mod 256"
  by (simp add: unat_word_ariths)

text \<open>
  Claim C8: for every pair of operand values, 7XNN, 8XY4, 8XY5 and 8XY7 produce results
  reduced modulo 256, and VF afterwards reflects carry or borrow exactly as specified; in
  particular 8XY5 with \<open>V[X] = V[Y] = 0\<close> yields \<open>VF = 1\<close> and difference 0, and 7XNN leaves
  VF unchanged.

  Counterexample for C8: VF is the register \<open>V[0xF]\<close>, and X may be 0xF.  The opcode 7F01
  executed with \<open>VF = 0\<close> leaves \<open>VF = 1\<close>.
\<close>

theorem add_7F01_changes_VF:
  "executeCycle 0 add_7F01 =
     Returned (add_7F01\<lparr>opcode := 0x7F01, pc := 0x202, V := (V add_7F01)(0xF := 1)\<rparr>)
   \<and> V add_7F01 0xF = 0"
  by (simp add: executeCycle_def execute_def fetch_def add_7F01_def
      zero_state_def MEMORY_SIZE_def OP_X_def OP_NN_def Let_def)

text \<open>
  Claim C8 as amended: for all register values and all X and Y, each of the four opcodes
  changes only \<open>V[X]\<close> and VF.  7XNN sets \<open>V[X]\<close> to \<open>(V[X] + NN) mod 256\<close> and, when X is not
  0xF, leaves VF unchanged.  8XY4 sets VF to 1 if \<open>V[X] + V[Y] > 255\<close> and to 0 otherwise;
  8XY5 sets VF to 1 if \<open>V[X] \<ge> V[Y]\<close> and to 0 otherwise; 8XY7 sets VF to 1 if
  \<open>V[Y] \<ge> V[X]\<close> and to 0 otherwise, all on the values before the step; and when X is not
  0xF they set \<open>V[X]\<close> to the sum or difference reduced modulo 256 (when X is 0xF the flag
  is written last and replaces it).
\<close>

theorem arith_wraps_and_flags:
  assumes "unat (pc s) + 1 < MEMORY_SIZE"
    and "fetch s AND 0xF000 = 0x7000 \<or>
         fetch s AND 0xF000 = 0x8000 \<and>
           (fetch s AND 0x000F = 4 \<or> fetch s AND 0x000F = 5 \<or> fetch s AND 0x000F = 7)"
  shows "\<exists>V'. executeCycle rnd s =
            Returned (s\<lparr>breakIPF := False, opcode := fetch s, pc := pc s + 2, V := V'\<rparr>) \<and>
    (let x = OP_X (fetch s); y = OP_Y (fetch s); nn = OP_NN (fetch s) in
     (\<forall>i. i \<noteq> x \<and> i \<noteq> 0xF \<longrightarrow> V' i = V s i) \<and>
     (if fetch s AND 0xF000 = 0x7000 then
        unat (V' x) = (unat (V s x) + unat nn) mod 256 \<and> (x \<noteq> 0xF \<longrightarrow> V' 0xF = V s 0xF)
      else if fetch s AND 0x000F = 4 then
        V' 0xF = (if unat (V s x) + unat (V s y) > 255 then 1 else 0) \<and>
        (x \<noteq> 0xF \<longrightarrow> unat (V' x) = (unat (V s x) + unat (V s y)) mod 256)
      else if fetch s AND 0x000F = 5 then
        V' 0xF = (if unat (V s x) \<ge> unat (V s y) then 1 else 0) \<and>
        (x \<noteq> 0xF \<longrightarrow> uint (V' x) = (uint (V s x) - uint (V s y)) mod 256)
      else
        V' 0xF = (if unat (V s y) \<ge> unat (V s x) then 1 else 0) \<and>
        (x \<noteq> 0xF \<longrightarrow> uint (V' x) = (uint (V s y) - uint (V s x)) mod 256)))"
proof -
  let ?t = "s\<lparr>breakIPF := False, opcode := fetch s, pc := pc s + 2\<rparr>"
  have ex: "executeCycle rnd s = execute rnd ?t"
    using assms(1) by (rule executeCycle_fetched)
  consider (add) "fetch s AND 0xF000 = 0x7000"
    | (a4) "fetch s AND 0xF000 = 0x8000" "fetch s AND 0x000F = 4"
    | (s5) "fetch s AND 0xF000 = 0x8000" "fetch s AND 0x000F = 5"
    | (s7) "fetch s AND 0xF000 = 0x8000" "fetch s AND 0x000F = 7"
    using assms(2) by blast
  then show ?thesis
  proof cases
    case add
    then show ?thesis
      by (intro exI [of _ "V (s\<lparr>V := (V s)(OP_X (fetch s) := V s (OP_X (fetch s)) + OP_NN (fetch s))\<rparr>)"])
         (simp add: ex execute_def Let_def u8_add_unat)
  next
    case a4
    then show ?thesis
      by (intro exI [of _ "V (exec_8 ?t)"])
         (simp add: ex execute_def exec_8_def Let_def u8_add_unat)
  next
    case s5
    then show ?thesis
      by (intro exI [of _ "V (exec_8 ?t)"])
         (simp add: ex execute_def exec_8_def Let_def u8_sub_uint word_le_nat_alt)
  next
    case s7
    then show ?thesis
      by (intro exI [of _ "V (exec_8 ?t)"])
         (simp add: ex execute_def exec_8_def Let_def u8_sub_uint word_le_nat_alt)
  qed
qed

text \<open>
  Witness for C8: 8125 with \<open>V[1] = V[2] = 0\<close> (\<open>VF = 1\<close>, difference 0), 71FF with
  \<open>V[1] = 3\<close>, 8124 with 200 + 100, 8127 with 3 - 5.
\<close>

theorem arith_wraps_and_flags_witness:
  "(\<exists>V'. executeCycle 0 sub_8125 = Returned (sub_8125\<lparr>breakIPF := False, opcode := 0x8125, pc := 0x202, V := V'\<rparr>)
      \<and> V' 0xF = 1 \<and> uint (V' 1) = 0) \<and>
   (\<exists>V'. executeCycle 0 add_71FF = Returned (add_71FF\<lparr>breakIPF := False, opcode := 0x71FF, pc := 0x202, V := V'\<rparr>)
      \<and> V' 0xF = 0 \<and> unat (V' 1) = 2) \<and>
   (\<exists>V'. executeCycle 0 add_8124 = Returned (add_8124\<lparr>breakIPF := False, opcode := 0x8124, pc := 0x202, V := V'\<rparr>)
      \<and> V' 0xF = 1 \<and> unat (V' 1) = 44) \<and>
   (\<exists>V'. executeCycle 0 sub_8127 = Returned (sub_8127\<lparr>breakIPF := False, opcode := 0x8127, pc := 0x202, V := V'\<rparr>)
      \<and> V' 0xF = 0 \<and> uint (V' 1) = 254)"
proof -
  have f: "fetch sub_8125 = 0x8125" "fetch add_71FF = 0x71FF" "fetch add_8124 = 0x8124"
    "fetch sub_8127 = 0x8127"
    by (simp_all add: fetch_def sub_8125_def add_71FF_def add_8124_def sub_8127_def zero_state_def)
  have d: "OP_X 0x8125 = 1" "OP_Y 0x8125 = 2" "OP_X 0x71FF = 1" "OP_NN 0x71FF = 0xFF"
    "OP_X 0x8124 = 1" "OP_Y 0x8124 = 2" "OP_X 0x8127 = 1" "OP_Y 0x8127 = 2"
    by (simp_all add: OP_X_def OP_Y_def OP_NN_def)
  have v: "V sub_8125 (Suc 0) = 0" "V sub_8125 2 = 0" "V add_71FF (Suc 0) = 3" "V add_71FF 0xF = 0"
    "V add_8124 (Suc 0) = 200" "V add_8124 2 = 100" "V sub_8127 (Suc 0) = 5" "V sub_8127 2 = 3"
    "pc sub_8125 = 0x200" "pc add_71FF = 0x200" "pc add_8124 = 0x200" "pc sub_8127 = 0x200"
    "breakIPF sub_8125 = False" "breakIPF add_71FF = False" "breakIPF add_8124 = False"
    "breakIPF sub_8127 = False"
    by (simp_all add: sub_8125_def add_71FF_def add_8124_def sub_8127_def zero_state_def)
  have p: "unat (pc sub_8125) + 1 < MEMORY_SIZE" "unat (pc add_71FF) + 1 < MEMORY_SIZE"
    "unat (pc add_8124) + 1 < MEMORY_SIZE" "unat (pc sub_8127) + 1 < MEMORY_SIZE"
    by (simp_all add: v MEMORY_SIZE_def)
  have o5: "fetch sub_8125 AND 0xF000 = 0x7000 \<or>
         fetch sub_8125 AND 0xF000 = 0x8000 \<and>
           (fetch sub_8125 AND 0x000F = 4 \<or> fetch sub_8125 AND 0x000F = 5 \<or> fetch sub_8125 AND 0x000F = 7)"
    by (simp add: f)
  have o7: "fetch add_71FF AND 0xF000 = 0x7000 \<or>
         fetch add_71FF AND 0xF000 = 0x8000 \<and>
           (fetch add_71FF AND 0x000F = 4 \<or> fetch add_71FF AND 0x000F = 5 \<or> fetch add_71FF AND 0x000F = 7)"
    by (simp add: f)
  have o4: "fetch add_8124 AND 0xF000 = 0x7000 \<or>
         fetch add_8124 AND 0xF000 = 0x8000 \<and>
           (fetch add_8124 AND 0x000F = 4 \<or> fetch add_8124 AND 0x000F = 5 \<or> fetch add_8124 AND 0x000F = 7)"
    by (simp add: f)
  have o9: "fetch sub_8127 AND 0xF000 = 0x7000 \<or>
         fetch sub_8127 AND 0xF000 = 0x8000 \<and>
           (fetch sub_8127 AND 0x000F = 4 \<or> fetch sub_8127 AND 0x000F = 5 \<or> fetch sub_8127 AND 0x000F = 7)"
    by (simp add: f)
  have a: "\<exists>V'. executeCycle 0 sub_8125 = Returned (sub_8125\<lparr>breakIPF := False, opcode := 0x8125, pc := 0x202, V := V'\<rparr>)
      \<and> V' 0xF = 1 \<and> uint (V' 1) = 0"
    using arith_wraps_and_flags [OF p(1) o5, of 0] unfolding f
    by (simp add: d v Let_def) blast
  have b: "\<exists>V'. executeCycle 0 add_71FF = Returned (add_71FF\<lparr>breakIPF := False, opcode := 0x71FF, pc := 0x202, V := V'\<rparr>)
      \<and> V' 0xF = 0 \<and> unat (V' 1) = 2"
    using arith_wraps_and_flags [OF p(2) o7, of 0] unfolding f
    by (simp add: d v Let_def) blast
  have c: "\<exists>V'. executeCycle 0 add_8124 = Returned (add_8124\<lparr>breakIPF := False, opcode := 0x8124, pc := 0x202, V := V'\<rparr>)
      \<and> V' 0xF = 1 \<and> unat (V' 1) = 44"
    using arith_wraps_and_flags [OF p(3) o4, of 0] unfolding f
    by (simp add: d v Let_def) blast
  have e: "\<exists>V'. executeCycle 0 sub_8127 = Returned (sub_8127\<lparr>breakIPF := False, opcode := 0x8127, pc := 0x202, V := V'\<rparr>)
      \<and> V' 0xF = 0 \<and> uint (V' 1) = 254"
    using arith_wraps_and_flags [OF p(4) o9, of 0] unfolding f
    by (simp add: d v Let_def) blast
  from a b c e show ?thesis by blast
qed

section \<open>FX55 followed by FX65\<close>

text \<open>
  Claim C9: for every X and all register contents, FX55 (store \<open>V0..VX\<close> at \<open>I\<close>) followed by
  FX65 with the same X and the same starting \<open>I\<close> reproduces the original \<open>V0..VX\<close>, and each
  of the two instructions leaves \<open>I\<close> advanced by exactly X + 1.

  The store is fetched from inside the memory and its addresses \<open>I, \<dots>, I + X\<close> lie inside
  it.  The load is executed in any later state \<open>t\<close> that has the stored bytes still at
  \<open>I, \<dots>, I + X\<close> and \<open>I\<close> back at its starting value; the registers of \<open>t\<close> are arbitrary.
\<close>

theorem store_load_roundtrip:
  assumes "unat (pc s) + 1 < MEMORY_SIZE"
    and "fetch s AND 0xF000 = 0xF000" and "fetch s AND 0x00FF = 0x55"
    and "unat (I s) + OP_X (fetch s) < MEMORY_SIZE"
  shows "\<exists>s1. executeCycle r1 s = Returned s1 \<and>
      unat (I s1) = unat (I s) + (OP_X (fetch s) + 1) \<and> V s1 = V s \<and> pc s1 = pc s + 2 \<and>
      (\<forall>a. memory s1 a =
            (if unat (I s) \<le> a \<and> a \<le> unat (I s) + OP_X (fetch s)
             then V s (a - unat (I s)) else memory s a)) \<and>
      (\<forall>t r2.
         (\<forall>a. unat (I s) \<le> a \<and> a \<le> unat (I s) + OP_X (fetch s) \<longrightarrow> memory t a = memory s1 a) \<and>
         I t = I s \<and> unat (pc t) + 1 < MEMORY_SIZE \<and>
         fetch t AND 0xF000 = 0xF000 \<and> fetch t AND 0x00FF = 0x65 \<and>
         OP_X (fetch t) = OP_X (fetch s)
         \<longrightarrow> (\<exists>s2. executeCycle r2 t = Returned s2 \<and>
                unat (I s2) = unat (I t) + (OP_X (fetch s) + 1) \<and>
                (\<forall>i\<le>OP_X (fetch s). V s2 i = V s i) \<and>
                (\<forall>i>OP_X (fetch s). V s2 i = V t i)))"
proof -
  let ?X = "OP_X (fetch s)"
  let ?s0 = "s\<lparr>breakIPF := False, opcode := fetch s, pc := pc s + 2\<rparr>"
  let ?s1 = "?s0\<lparr>memory := (\<lambda>a. if unat (I ?s0) \<le> a \<and> a < unat (I ?s0) + (?X + 1 - 0)
                                 then V ?s0 (0 + (a - unat (I ?s0))) else memory ?s0 a),
                 I := I ?s0 + of_nat (?X + 1 - 0)\<rparr>"
  have b: "unat (I ?s0) + (?X + 1 - 0) \<le> MEMORY_SIZE" using assms(4) by simp
  have e1: "executeCycle r1 s = Returned ?s1"
    unfolding store_step [OF assms(1-3)] by (rule store_loop_upt [OF b])
  have i1: "unat (I ?s1) = unat (I s) + (?X + 1)"
    using unat_u16_add [of "I s" "?X + 1"] assms(4) by simp
  have m1: "memory ?s1 a =
            (if unat (I s) \<le> a \<and> a \<le> unat (I s) + ?X then V s (a - unat (I s)) else memory s a)"
    for a by (simp add: less_Suc_eq_le)
  have again: "\<exists>s2. executeCycle r2 t = Returned s2 \<and>
                unat (I s2) = unat (I t) + (?X + 1) \<and>
                (\<forall>i\<le>?X. V s2 i = V s i) \<and> (\<forall>i>?X. V s2 i = V t i)"
    if t: "\<forall>a. unat (I s) \<le> a \<and> a \<le> unat (I s) + ?X \<longrightarrow> memory t a = memory ?s1 a"
      "I t = I s" "unat (pc t) + 1 < MEMORY_SIZE"
      "fetch t AND 0xF000 = 0xF000" "fetch t AND 0x00FF = 0x65" "OP_X (fetch t) = ?X"
    for t r2
  proof -
    let ?t0 = "t\<lparr>breakIPF := False, opcode := fetch t, pc := pc t + 2\<rparr>"
    let ?s2 = "?t0\<lparr>V := (\<lambda>j. if 0 \<le> j \<and> j < ?X + 1
                              then memory ?t0 (unat (I ?t0) + (j - 0)) else V ?t0 j),
                    I := I ?t0 + of_nat (?X + 1 - 0)\<rparr>"
    have bt: "unat (I ?t0) + (?X + 1 - 0) \<le> MEMORY_SIZE" using assms(4) t(2) by simp
    have e2: "executeCycle r2 t = Returned ?s2"
      unfolding load_step [OF t(3-5)] t(6) by (rule load_loop_upt [OF bt])
    have i2: "unat (I ?s2) = unat (I t) + (?X + 1)"
      using unat_u16_add [of "I s" "?X + 1"] assms(4) t(2) by simp
    have lo: "V ?s2 i = V s i" if "i \<le> ?X" for i
    proof -
      from that have "V ?s2 i = memory t (unat (I s) + i)" by (simp add: t(2))
      also have "\<dots> = memory ?s1 (unat (I s) + i)" using t(1) that by simp
      also have "\<dots> = V s i" using that by (simp add: m1)
      finally show ?thesis .
    qed
    have hi: "V ?s2 i = V t i" if "i > ?X" for i using that by simp
    from e2 i2 lo hi show ?thesis by blast
  qed
  have v1: "V ?s1 = V s" and p1: "pc ?s1 = pc s + 2" by simp_all
  show ?thesis
    by (rule exI [of _ ?s1]) (use e1 i1 v1 p1 m1 again in blast)
qed

text \<open>
  Witness for C9: F255 with \<open>V[0..2] = 10, 20, 30\<close> and \<open>I = 0x300\<close>; then all registers are
  cleared, \<open>I\<close> is set back to 0x300 and F265 at 0x202 restores 10, 20, 30.
\<close>

theorem store_load_roundtrip_witness:
  "\<exists>s1 s2. executeCycle 0 store_F255 = Returned s1 \<and> unat (I s1) = 0x303 \<and>
     executeCycle 0 (s1\<lparr>I := 0x300, V := (\<lambda>_. 0)\<rparr>) = Returned s2 \<and>
     V s2 0 = 10 \<and> V s2 1 = 20 \<and> V s2 2 = 30 \<and> V s2 3 = 0 \<and> unat (I s2) = 0x303"
proof -
  have f: "fetch store_F255 = 0xF255"
    by (simp add: fetch_def store_F255_def zero_state_def)
  have x: "OP_X 0xF255 = 2" "OP_X 0xF265 = 2" by (simp_all add: OP_X_def)
  have c: "pc store_F255 = 0x200" "I store_F255 = 0x300" "V store_F255 0 = 10"
    "V store_F255 (Suc 0) = 20" "V store_F255 2 = 30"
    "memory store_F255 0x202 = 0xF2" "memory store_F255 0x203 = 0x65"
    by (simp_all add: store_F255_def zero_state_def)
  have h1: "unat (pc store_F255) + 1 < MEMORY_SIZE" by (simp add: c MEMORY_SIZE_def)
  have h2: "fetch store_F255 AND 0xF000 = 0xF000" and h3: "fetch store_F255 AND 0x00FF = 0x55"
    by (simp_all add: f)
  have h4: "unat (I store_F255) + OP_X (fetch store_F255) < MEMORY_SIZE"
    by (simp add: f x c MEMORY_SIZE_def)
  from store_load_roundtrip [OF h1 h2 h3 h4, of 0]
  obtain s1 where s1: "executeCycle 0 store_F255 = Returned s1"
      "unat (I s1) = unat (I store_F255) + (OP_X (fetch store_F255) + 1)"
      "pc s1 = pc store_F255 + 2"
      "\<forall>a. memory s1 a =
            (if unat (I store_F255) \<le> a \<and> a \<le> unat (I store_F255) + OP_X (fetch store_F255)
             then V store_F255 (a - unat (I store_F255)) else memory store_F255 a)"
    and rt: "\<forall>t r2.
         (\<forall>a. unat (I store_F255) \<le> a \<and> a \<le> unat (I store_F255) + OP_X (fetch store_F255)
              \<longrightarrow> memory t a = memory s1 a) \<and>
         I t = I store_F255 \<and> unat (pc t) + 1 < MEMORY_SIZE \<and>
         fetch t AND 0xF000 = 0xF000 \<and> fetch t AND 0x00FF = 0x65 \<and>
         OP_X (fetch t) = OP_X (fetch store_F255)
         \<longrightarrow> (\<exists>s2. executeCycle r2 t = Returned s2 \<and>
                unat (I s2) = unat (I t) + (OP_X (fetch store_F255) + 1) \<and>
                (\<forall>i\<le>OP_X (fetch store_F255). V s2 i = V store_F255 i) \<and>
                (\<forall>i>OP_X (fetch store_F255). V s2 i = V t i))"
    by blast
  define t where "t = s1\<lparr>I := 0x300, V := (\<lambda>_. 0)\<rparr>"
  have ft: "fetch t = 0xF265"
    by (simp add: fetch_def t_def s1(3,4) c f x)
  have t1: "\<forall>a. unat (I store_F255) \<le> a \<and> a \<le> unat (I store_F255) + OP_X (fetch store_F255)
              \<longrightarrow> memory t a = memory s1 a"
    by (simp add: t_def)
  have t2: "I t = I store_F255" by (simp add: t_def c)
  have t3: "unat (pc t) + 1 < MEMORY_SIZE" by (simp add: t_def s1(3) c MEMORY_SIZE_def)
  have t4: "fetch t AND 0xF000 = 0xF000" "fetch t AND 0x00FF = 0x65"
    "OP_X (fetch t) = OP_X (fetch store_F255)"
    by (simp_all add: ft f x)
  from rt [rule_format, of t 0] t1 t2 t3 t4
  obtain s2 where s2: "executeCycle 0 t = Returned s2"
      "unat (I s2) = unat (I t) + (OP_X (fetch store_F255) + 1)"
      "\<forall>i\<le>OP_X (fetch store_F255). V s2 i = V store_F255 i"
      "\<forall>i>OP_X (fetch store_F255). V s2 i = V t i"
    by blast
  have "V s2 0 = 10" "V s2 1 = 20" "V s2 2 = 30" "V s2 3 = 0"
    using s2(3,4) by (simp_all add: f x c t_def)
  moreover have "unat (I s1) = 0x303" "unat (I s2) = 0x303"
    using s1(2) s2(2) by (simp_all add: f x c t2)
  ultimately show ?thesis using s1(1) s2(1) unfolding t_def by blast
qed

section \<open>The key-skip opcodes EX9E and EXA1\<close>

text \<open>
  Claim C10: EX9E and EXA1 index the 16-entry key matrix with the whole byte \<open>V[X]\<close> and
  check no bound, so they are defined only when \<open>V[X] \<le> 15\<close>; in every state with
  \<open>V[X] \<le> 15\<close> the access is inside the array.

  For an opcode EX9E or EXA1 fetched from inside the memory: when \<open>V[X] \<le> 15\<close> the step
  returns, having skipped or not as \<open>key[V[X]]\<close> says; otherwise it reads \<open>key\<close> at the
  index \<open>V[X]\<close>, outside the array.
\<close>

theorem key_skip_defined_iff:
  assumes "unat (pc s) + 1 < MEMORY_SIZE"
    and "fetch s AND 0xF000 = 0xE000"
    and "fetch s AND 0x00FF = 0x9E \<or> fetch s AND 0x00FF = 0xA1"
  shows "executeCycle rnd s =
    (if unat (V s (OP_X (fetch s))) \<le> 15
     then Returned (s\<lparr>breakIPF := False, opcode := fetch s,
            pc := pc s + (if (key s (unat (V s (OP_X (fetch s)))) \<noteq> 0) = (fetch s AND 0x00FF = 0x9E)
                          then 4 else 2)\<rparr>)
     else Undefined KeyArr (unat (V s (OP_X (fetch s)))))"
  using assms
  by (auto simp add: executeCycle_fetched execute_def exec_E_def KEY_SIZE_def Let_def)

text \<open>
  Witness for C10: E09E at 0x200 with \<open>V[0] = 3\<close> and key 3 pressed; the step skips the next
  instruction.
\<close>

theorem key_skip_defined_iff_witness:
  "unat (V skip_E09E (OP_X (fetch skip_E09E))) \<le> 15 \<and>
   executeCycle 0 skip_E09E = Returned (skip_E09E\<lparr>opcode := 0xE09E, pc := 0x204\<rparr>)"
proof -
  have f: "fetch skip_E09E = 0xE09E"
    by (simp add: fetch_def skip_E09E_def zero_state_def)
  have h1: "unat (pc skip_E09E) + 1 < MEMORY_SIZE"
    by (simp add: skip_E09E_def zero_state_def MEMORY_SIZE_def)
  have h2: "fetch skip_E09E AND 0xF000 = 0xE000" by (simp add: f)
  have h3: "fetch skip_E09E AND 0x00FF = 0x9E \<or> fetch skip_E09E AND 0x00FF = 0xA1"
    by (simp add: f)
  have v: "V skip_E09E (OP_X 0xE09E) = 3"
    by (simp add: OP_X_def) (simp add: skip_E09E_def zero_state_def)
  have k: "key skip_E09E 3 = 1" "pc skip_E09E = 0x200" "breakIPF skip_E09E = False"
    by (simp_all add: skip_E09E_def zero_state_def)
  show ?thesis
    using key_skip_defined_iff [OF h1 h2 h3, of 0] unfolding f by (simp add: v k)
qed

end
